theory Spec2Isabelle
  imports Main "HOL-Library.Word"
begin

unbundle bit_operations_syntax

section \<open>Errors and the byte cursor\<close>

type_synonym byte = "8 word"

text \<open>Decoded text is a list of Unicode code points.\<close>

type_synonym pystr = "nat list"

text \<open>
  The exceptions the code can raise. \<open>EOFError\<close> is the short read of
  \<^verbatim>\<open>read_exact\<close>; \<open>BadMagic\<close>, \<open>BadDivider\<close> and \<open>NotCON\<close> are the three
  \<^verbatim>\<open>ValueError\<close>s raised by \<^verbatim>\<open>parse_header\<close>, \<^verbatim>\<open>read_divider\<close> and
  \<^verbatim>\<open>PirsType2.__init__\<close>; \<open>SliceLenError\<close> is the \<^verbatim>\<open>ValueError\<close> of an extended
  slice assignment of the wrong length; \<open>OverflowError\<close> and \<open>MemoryError\<close> are
  raised by \<^verbatim>\<open>f.read\<close> for a count it cannot serve.
\<close>

datatype error = EOFError | BadMagic | BadDivider | NotCON | IndexError
  | ZeroDivisionError | SliceLenError | OverflowError | MemoryError

definition bindE :: "error + 'a \<Rightarrow> ('a \<Rightarrow> error + 'b) \<Rightarrow> error + 'b" where
  "bindE r k = (case r of Inl e \<Rightarrow> Inl e | Inr a \<Rightarrow> k a)"

definition PIPE :: byte where
  "PIPE = 0x7C"

definition MAGIC :: "byte list" where
  "MAGIC = [0x46, 0x4F, 0x33, 0x53, 0x41, 0x56, 0x45, 0x47, 0x41, 0x4D, 0x45]"

definition MAGIC_CON :: "byte list" where
  "MAGIC_CON = [0x43, 0x4F, 0x4E, 0x20]"

text \<open>
  A file opened with \<^verbatim>\<open>"rb"\<close> is its bytes \<open>bs\<close>, which never change, and a
  cursor position. \<^verbatim>\<open>f.read(n)\<close> returns the at most \<open>n\<close> bytes left at the
  position and advances by what it returned; \<^verbatim>\<open>f.seek\<close> may move beyond the end.
\<close>

definition f_read :: "byte list \<Rightarrow> nat \<Rightarrow> nat \<Rightarrow> byte list \<times> nat" where
  "f_read bs pos n = (let b = take n (drop pos bs) in (b, pos + length b))"

text \<open>
  \<^verbatim>\<open>read_exact\<close> is defined twice in the module (lines 24 and 123); the second
  definition, raising \<^verbatim>\<open>EOFError\<close>, replaces the first before anything runs, so
  every caller gets it.
\<close>

definition read_exact :: "byte list \<Rightarrow> nat \<Rightarrow> nat \<Rightarrow> error + (byte list \<times> nat)" where
  "read_exact bs pos n =
     (let (b, pos') = f_read bs pos n
      in if length b \<noteq> n then Inl EOFError else Inr (b, pos'))"

text \<open>
  Before it reads, \<^verbatim>\<open>f.read(n)\<close> gets a buffer of \<open>n\<close> bytes: a count above
  \<open>2\<^sup>6\<^sup>3 - 1\<close> does not fit the C size type and raises \<^verbatim>\<open>OverflowError\<close>, and a
  buffer that the platform does not allocate raises \<^verbatim>\<open>MemoryError\<close> (for the few
  counts just below the bound, whose object size overflows, \<^verbatim>\<open>OverflowError\<close>
  again; the model says \<open>MemoryError\<close> for all of them). Which sizes the platform
  allocates is the parameter \<open>alloc\<close>. This is \<^verbatim>\<open>read_exact\<close> for a
  caller whose count is not bounded: \<^verbatim>\<open>extract_image\<close>, whose count is the product
  of two 32-bit header fields and 3. Every other caller passes a count of at most 65535
  or of at most the bytes left in the file, for which \<open>read_exact\<close> above takes the
  buffer to be there.
\<close>

definition read_exact_buf ::
  "(nat \<Rightarrow> bool) \<Rightarrow> byte list \<Rightarrow> nat \<Rightarrow> nat \<Rightarrow> error + (byte list \<times> nat)" where
  "read_exact_buf alloc bs pos n =
     (if 2 ^ 63 - 1 < n then Inl OverflowError
      else if \<not> alloc n then Inl MemoryError
      else read_exact bs pos n)"

text \<open>\<^verbatim>\<open>struct.unpack\<close> of an unsigned little-endian integer.\<close>

fun le_nat :: "byte list \<Rightarrow> nat" where
  "le_nat [] = 0"
| "le_nat (b # bs) = unat b + 256 * le_nat bs"

definition read_u32_le :: "byte list \<Rightarrow> nat \<Rightarrow> error + (nat \<times> nat)" where
  "read_u32_le bs pos = bindE (read_exact bs pos 4) (\<lambda>(b, pos). Inr (le_nat b, pos))"

definition read_u16_le :: "byte list \<Rightarrow> nat \<Rightarrow> error + (nat \<times> nat)" where
  "read_u16_le bs pos = bindE (read_exact bs pos 2) (\<lambda>(b, pos). Inr (le_nat b, pos))"

definition read_divider :: "byte list \<Rightarrow> nat \<Rightarrow> error + nat" where
  "read_divider bs pos =
     bindE (read_exact bs pos 1) (\<lambda>(b, pos).
       let c = b ! 0 in if c \<noteq> PIPE then Inl BadDivider else Inr pos)"

text \<open>Latin-1 maps every byte to the code point of the same number.\<close>

definition latin1 :: "byte list \<Rightarrow> pystr" where
  "latin1 raw = map unat raw"

definition read_bzstring :: "byte list \<Rightarrow> nat \<Rightarrow> nat \<Rightarrow> error + (pystr \<times> nat)" where
  "read_bzstring bs pos sz =
     (if sz = 0 then Inr ([], pos)
      else bindE (read_exact bs pos sz) (\<lambda>(raw, pos). Inr (latin1 raw, pos)))"

section \<open>Save header decoder\<close>

record header =
  width :: nat
  height :: nat
  save_index :: nat
  pc_name :: pystr
  pc_karma :: pystr
  pc_level :: nat
  pc_location :: pystr
  playtime :: pystr
  unknown1 :: nat
  screenshot_offset :: nat
  header_end_pos :: nat
  header_start_pos :: nat

text \<open>\<^verbatim>\<open>parse_header\<close>; \<open>pos0\<close> is the position of \<^verbatim>\<open>f\<close> at the call.\<close>

definition parse_header :: "byte list \<Rightarrow> nat \<Rightarrow> error + (header \<times> nat)" where
  "parse_header bs pos0 =
     (let start_pos = pos0 in
      bindE (read_exact bs pos0 11) (\<lambda>(file_id, pos).
      if file_id \<noteq> MAGIC then Inl BadMagic else
      bindE (read_u32_le bs pos) (\<lambda>(save_header_size, pos).
      bindE (read_u32_le bs pos) (\<lambda>(unknown1, pos).
      bindE (read_divider bs pos) (\<lambda>pos.
      bindE (read_u32_le bs pos) (\<lambda>(val, pos).
      bindE (if val > 16384
             then (let pos = pos + 60 in
                   bindE (read_divider bs pos) (\<lambda>pos. read_u32_le bs pos))
             else Inr (val, pos)) (\<lambda>(width, pos).
      bindE (read_divider bs pos) (\<lambda>pos.
      bindE (read_u32_le bs pos) (\<lambda>(height, pos).
      bindE (read_divider bs pos) (\<lambda>pos.
      bindE (read_u32_le bs pos) (\<lambda>(save_index, pos).
      bindE (read_divider bs pos) (\<lambda>pos.
      bindE (read_u16_le bs pos) (\<lambda>(pc_name_size, pos).
      bindE (read_divider bs pos) (\<lambda>pos.
      bindE (read_bzstring bs pos pc_name_size) (\<lambda>(pc_name, pos).
      bindE (read_divider bs pos) (\<lambda>pos.
      bindE (read_u16_le bs pos) (\<lambda>(pc_karma_size, pos).
      bindE (read_divider bs pos) (\<lambda>pos.
      bindE (read_bzstring bs pos pc_karma_size) (\<lambda>(pc_karma, pos).
      bindE (read_divider bs pos) (\<lambda>pos.
      bindE (read_u32_le bs pos) (\<lambda>(pc_level, pos).
      bindE (read_divider bs pos) (\<lambda>pos.
      bindE (read_u16_le bs pos) (\<lambda>(pc_location_size, pos).
      bindE (read_divider bs pos) (\<lambda>pos.
      bindE (read_bzstring bs pos pc_location_size) (\<lambda>(pc_location, pos).
      bindE (read_divider bs pos) (\<lambda>pos.
      bindE (read_u16_le bs pos) (\<lambda>(playtime_size, pos).
      bindE (read_divider bs pos) (\<lambda>pos.
      bindE (read_bzstring bs pos playtime_size) (\<lambda>(playtime, pos).
      let screenshot_offset = 4 + save_header_size in
      Inr (\<lparr>width = width, height = height, save_index = save_index,
            pc_name = pc_name, pc_karma = pc_karma, pc_level = pc_level,
            pc_location = pc_location, playtime = playtime, unknown1 = unknown1,
            screenshot_offset = screenshot_offset, header_end_pos = pos,
            header_start_pos = start_pos\<rparr>, pos))))))))))))))))))))))))))))))"

section \<open>Pixel transform\<close>

text \<open>
  \<^verbatim>\<open>reorder_channels\<close>: \<open>out\<close> starts as \<^verbatim>\<open>bytearray(len(buf))\<close>; the loop
  runs over \<^verbatim>\<open>range(0, len(buf), 3)\<close>, and \<^verbatim>\<open>buf[i + 2]\<close>, read first, raises
  \<^verbatim>\<open>IndexError\<close> when the length is not a multiple of 3.
\<close>

function reorder_loop :: "byte list \<Rightarrow> byte list \<Rightarrow> nat \<Rightarrow> error + byte list" where
  "reorder_loop buf out i =
     (if i < length buf then
        (if i + 2 < length buf
         then reorder_loop buf
                (out[i + 0 := buf ! (i + 2), i + 1 := buf ! (i + 0), i + 2 := buf ! (i + 1)])
                (i + 3)
         else Inl IndexError)
      else Inr out)"
  by pat_completeness auto
termination
  by (relation "measure (\<lambda>(buf, out, i). length buf - i)") auto

definition reorder_channels :: "byte list \<Rightarrow> error + byte list" where
  "reorder_channels buf = reorder_loop buf (replicate (length buf) 0) 0"

text \<open>The three keys of the dictionary in \<^verbatim>\<open>shift_channel\<close>.\<close>

datatype channel = R | G | B

fun ch_idx :: "channel \<Rightarrow> nat" where
  "ch_idx R = 0"
| "ch_idx G = 1"
| "ch_idx B = 2"

text \<open>
  The extended slice \<^verbatim>\<open>xs[start:stop:3]\<close> for non-negative bounds: the elements at
  \<open>start, start + 3, \<dots>\<close> below \<open>min stop (len xs)\<close>. Assigning to it replaces
  exactly these elements and raises \<^verbatim>\<open>ValueError\<close> when the lengths differ.
\<close>

definition slice3_len :: "nat \<Rightarrow> nat \<Rightarrow> nat \<Rightarrow> nat" where
  "slice3_len n start stop = (min stop n - start + 2) div 3"

definition slice3 :: "'a list \<Rightarrow> nat \<Rightarrow> nat \<Rightarrow> 'a list" where
  "slice3 xs start stop =
     map (\<lambda>k. xs ! (start + 3 * k)) [0..<slice3_len (length xs) start stop]"

definition slice3_assign :: "'a list \<Rightarrow> nat \<Rightarrow> nat \<Rightarrow> 'a list \<Rightarrow> error + 'a list" where
  "slice3_assign xs start stop vs =
     (if length vs \<noteq> slice3_len (length xs) start stop then Inl SliceLenError
      else Inr (map (\<lambda>i. if start \<le> i \<and> i < min stop (length xs) \<and> (i - start) mod 3 = 0
                         then vs ! ((i - start) div 3) else xs ! i)
                  [0..<length xs]))"

text \<open>
  The body of the row loop of \<^verbatim>\<open>shift_channel\<close>. For \<open>shift > 0\<close>,
  \<^verbatim>\<open>ch_row[-shift:]\<close> is the last \<open>shift\<close> elements (all of them when there are
  fewer) and \<^verbatim>\<open>ch_row[:-shift]\<close> is the rest.
\<close>

definition shift_row :: "byte list \<Rightarrow> nat \<Rightarrow> nat \<Rightarrow> nat \<Rightarrow> nat \<Rightarrow> error + byte list" where
  "shift_row out w ch shift y =
     (let row_stride = w * 3;
          row0 = y * row_stride;
          ch_row = slice3 out (row0 + ch) (row0 + row_stride);
          rotated = drop (length ch_row - shift) ch_row @ take (length ch_row - shift) ch_row
      in slice3_assign out (row0 + ch) (row0 + row_stride) rotated)"

fun shift_rows :: "byte list \<Rightarrow> nat \<Rightarrow> nat \<Rightarrow> nat \<Rightarrow> nat list \<Rightarrow> error + byte list" where
  "shift_rows out w ch shift [] = Inr out"
| "shift_rows out w ch shift (y # ys) =
     bindE (shift_row out w ch shift y) (\<lambda>out. shift_rows out w ch shift ys)"

text \<open>
  \<^verbatim>\<open>shift_channel\<close>. Python's \<^verbatim>\<open>%\<close> with a positive divisor is \<open>mod\<close> on
  \<open>int\<close>, and raises \<^verbatim>\<open>ZeroDivisionError\<close> when \<open>w = 0\<close>.
\<close>

definition shift_channel :: "byte list \<Rightarrow> nat \<Rightarrow> nat \<Rightarrow> channel \<Rightarrow> int \<Rightarrow> error + byte list" where
  "shift_channel buf w h channel shift_px =
     (let ch = ch_idx channel in
      if w = 0 then Inl ZeroDivisionError
      else let shift = nat (shift_px mod int w) in
        if shift = 0 then Inr buf
        else shift_rows buf w ch shift [0..<h])"

text \<open>
  The four calls of \<^verbatim>\<open>extract_image\<close> (lines 316 to 320) that turn the raw
  buffer into the displayed one: the pixel transform.
\<close>

definition pixel_transform :: "byte list \<Rightarrow> nat \<Rightarrow> nat \<Rightarrow> error + byte list" where
  "pixel_transform data w h =
     bindE (reorder_channels data) (\<lambda>data.
     bindE (shift_channel data w h R (- 3)) (\<lambda>data.
     bindE (shift_channel data w h G (- 4)) (\<lambda>data.
     shift_channel data w h B (- 4))))"

text \<open>
  \<^verbatim>\<open>extract_image\<close> up to the call of \<^verbatim>\<open>Image.frombytes("RGB", (w, h), data)\<close>:
  the result is the triple handed to the image library. Encoding and saving the file
  are the library's. \<open>alloc\<close> is the platform's answer to the one read whose count
  the header decides.
\<close>

definition extract_image ::
  "(nat \<Rightarrow> bool) \<Rightarrow> byte list \<Rightarrow> error + (nat \<times> nat \<times> byte list)" where
  "extract_image alloc bs =
     bindE (parse_header bs 0) (\<lambda>(meta, pos).
     let w = width meta; h = height meta;
         pos = screenshot_offset meta;
         expected = w * h * 3 in
     bindE (read_exact_buf alloc bs pos expected) (\<lambda>(data, pos).
     bindE (pixel_transform data w h) (\<lambda>data.
     Inr (w, h, data))))"

section \<open>Vocabulary for the pixel transform\<close>

text \<open>
  The index of channel \<open>c\<close> of the pixel in column \<open>x\<close> of row \<open>y\<close>, and the
  strided sub-sequence of one channel within one row, written as the slice that
  \<^verbatim>\<open>shift_channel\<close> takes.
\<close>

definition pix :: "nat \<Rightarrow> nat \<Rightarrow> nat \<Rightarrow> nat \<Rightarrow> nat" where
  "pix w y x c = (y * w + x) * 3 + c"

definition chan_row :: "'a list \<Rightarrow> nat \<Rightarrow> nat \<Rightarrow> nat \<Rightarrow> 'a list" where
  "chan_row xs w y c = slice3 xs (y * (w * 3) + c) (y * (w * 3) + w * 3)"

text \<open>
  The inverse of the transform, from the words of the specification: right-rotate every
  channel in every scanline by the amount the transform used, then apply the inverse
  channel permutation. \<open>rotate\<close> is the left rotation of lists.
\<close>

definition rotate_right :: "nat \<Rightarrow> 'a list \<Rightarrow> 'a list" where
  "rotate_right k xs = rotate (length xs - k mod length xs) xs"

definition unshift_channel :: "byte list \<Rightarrow> nat \<Rightarrow> nat \<Rightarrow> nat \<Rightarrow> nat \<Rightarrow> byte list" where
  "unshift_channel buf w h c k =
     map (\<lambda>i. if i mod 3 = c \<and> i < w * h * 3
              then rotate_right k (chan_row buf w (i div (w * 3)) c) ! (i mod (w * 3) div 3)
              else buf ! i)
       [0..<length buf]"

definition unreorder_channels :: "byte list \<Rightarrow> byte list" where
  "unreorder_channels buf =
     map (\<lambda>i. buf ! (if i mod 3 = 2 then i - 2 else i + 1)) [0..<length buf]"

definition inverse_transform :: "byte list \<Rightarrow> nat \<Rightarrow> nat \<Rightarrow> byte list" where
  "inverse_transform buf w h =
     unreorder_channels
       (unshift_channel (unshift_channel (unshift_channel buf w h 2 4) w h 1 4) w h 0 3)"

text \<open>
  The permutation read off the labels of the specification: stored order (B, R, G),
  output order (R, G, B).
\<close>

fun reorder_by_labels :: "byte list \<Rightarrow> byte list" where
  "reorder_by_labels (b # r # g # rest) = r # g # b # reorder_by_labels rest"
| "reorder_by_labels rest = []"

section \<open>Synthetic save headers\<close>

text \<open>
  Encoders for building test inputs: little-endian integers and the two header layouts,
  field by field in the order \<^verbatim>\<open>parse_header\<close> reads them. They are not part of
  the program.
\<close>

definition le32 :: "nat \<Rightarrow> byte list" where
  "le32 n = [of_nat n, of_nat (n div 256), of_nat (n div 65536), of_nat (n div 16777216)]"

definition le16 :: "nat \<Rightarrow> byte list" where
  "le16 n = [of_nat n, of_nat (n div 256)]"

definition header_fields ::
  "nat \<Rightarrow> nat \<Rightarrow> byte list \<Rightarrow> byte list \<Rightarrow> nat \<Rightarrow> byte list \<Rightarrow> byte list \<Rightarrow> byte list" where
  "header_fields h idx name karma lvl loc pt =
     PIPE # le32 h @ PIPE # le32 idx @
     PIPE # le16 (length name) @ PIPE # name @
     PIPE # le16 (length karma) @ PIPE # karma @
     PIPE # le32 lvl @
     PIPE # le16 (length loc) @ PIPE # loc @
     PIPE # le16 (length pt) @ PIPE # pt"

definition flat_header :: "nat \<Rightarrow> nat \<Rightarrow> nat \<Rightarrow> byte list \<Rightarrow> byte list" where
  "flat_header hs unk w flds = MAGIC @ le32 hs @ le32 unk @ PIPE # le32 w @ flds"

definition legacy_header ::
  "nat \<Rightarrow> nat \<Rightarrow> nat \<Rightarrow> byte list \<Rightarrow> nat \<Rightarrow> byte list \<Rightarrow> byte list" where
  "legacy_header hs unk bogus skip w flds =
     MAGIC @ le32 hs @ le32 unk @ PIPE # le32 bogus @ skip @ PIPE # le32 w @ flds"

section \<open>Clustered container: cluster to physical offset\<close>

text \<open>
  \<^verbatim>\<open>PirsType2.__init__\<close> sets \<^verbatim>\<open>self.con_start = 49152\<close> and
  \<^verbatim>\<open>self.con_offset = 8192\<close> for every instance and never changes them, so they
  are constants here. Python integers are unbounded: \<open>int\<close>.
\<close>

definition con_start :: int where
  "con_start = 49152"

definition con_offset :: int where
  "con_offset = 8192"

text \<open>
  \<^verbatim>\<open>PirsType2._get_offset\<close>. Python's \<^verbatim>\<open>//\<close> rounds towards minus infinity,
  as \<open>div\<close> on \<open>int\<close> does.
\<close>

definition get_offset :: "int \<Rightarrow> int" where
  "get_offset cluster =
     (let num = con_start + cluster * 4096;
          n2 = cluster div 170;
          n3 = n2 div 170;
          num = (if n2 > 0 then num + (n2 + 1) * con_offset else num);
          num = (if n3 > 0 then num + (n3 + 1) * con_offset else num)
      in num)"

text \<open>
  The offset as the specification words it: one index block of 8192 bytes for every
  complete group of 170 clusters passed, and a second one for every complete group of
  170 groups passed.
\<close>

definition spec_offset :: "int \<Rightarrow> int" where
  "spec_offset c = con_start + c * 4096 + (c div 170) * 8192 + (c div 170 div 170) * 8192"

section \<open>Clustered container: entry table\<close>

definition r_u16le :: "byte list \<Rightarrow> nat \<Rightarrow> error + (nat \<times> nat)" where
  "r_u16le bs pos = bindE (read_exact bs pos 2) (\<lambda>(b, pos). Inr (le_nat b, pos))"

definition r_u32le :: "byte list \<Rightarrow> nat \<Rightarrow> error + (nat \<times> nat)" where
  "r_u32le bs pos = bindE (read_exact bs pos 4) (\<lambda>(b, pos). Inr (le_nat b, pos))"

text \<open>The signed read: two's complement of the four bytes.\<close>

definition r_i32le :: "byte list \<Rightarrow> nat \<Rightarrow> error + (int \<times> nat)" where
  "r_i32le bs pos =
     bindE (read_exact bs pos 4) (\<lambda>(b, pos).
       let v = int (le_nat b) in Inr (if v \<ge> 2 ^ 31 then v - 2 ^ 32 else v, pos))"

text \<open>
  \<^verbatim>\<open>read_fixed_str\<close>. The bytes before the first NUL are decoded by
  \<^verbatim>\<open>raw.decode("utf-8", "replace").strip()\<close>; both are Python built-ins, so the
  decoder is the parameter \<open>dec\<close>.
\<close>

definition read_fixed_str ::
  "(byte list \<Rightarrow> pystr) \<Rightarrow> byte list \<Rightarrow> nat \<Rightarrow> nat \<Rightarrow> error + (pystr \<times> nat)" where
  "read_fixed_str dec bs pos n =
     bindE (read_exact bs pos n) (\<lambda>(raw, pos).
       let raw = takeWhile (\<lambda>b. b \<noteq> 0) raw in Inr (dec raw, pos))"

type_synonym datetime = "nat \<times> nat \<times> nat \<times> nat \<times> nat \<times> nat"

definition dos_datetime_from_u32 :: "nat \<Rightarrow> datetime" where
  "dos_datetime_from_u32 v =
     (let d = (drop_bit 16 v) AND 0xFFFF;
          t = v AND 0xFFFF;
          year = ((drop_bit 9 d) AND 0x7F) + 1980;
          month = (drop_bit 5 d) AND 0x0F;
          day = d AND 0x1F;
          hour = (drop_bit 11 t) AND 0x1F;
          minute = (drop_bit 5 t) AND 0x3F;
          sec2 = (t AND 0x1F) * 2
      in (year, month, day, hour, minute, sec2))"

record pirs_entry =
  Filename :: pystr
  Unknow :: int
  BlockLen :: int
  Cluster :: nat
  Parent :: nat
  Size :: nat
  DateTime1 :: datetime
  DateTime2 :: datetime
  is_dir :: bool

text \<open>
  \<^verbatim>\<open>PirsType2._read_entry\<close>. For an empty name the code returns an entry with
  only \<^verbatim>\<open>Filename\<close> set, which its one caller drops: \<open>None\<close> here.
\<close>

definition read_entry ::
  "(byte list \<Rightarrow> pystr) \<Rightarrow> byte list \<Rightarrow> nat \<Rightarrow> error + (pirs_entry option \<times> nat)" where
  "read_entry dec bs pos =
     bindE (read_fixed_str dec bs pos 38) (\<lambda>(filename, pos).
     if filename = [] then Inr (None, pos) else
     bindE (r_i32le bs pos) (\<lambda>(unknow, pos).
     bindE (r_i32le bs pos) (\<lambda>(blocklen, pos).
     bindE (r_u32le bs pos) (\<lambda>(raw_cluster, pos).
     let cluster = drop_bit 8 raw_cluster in
     bindE (r_u16le bs pos) (\<lambda>(parent, pos).
     bindE (r_u32le bs pos) (\<lambda>(sz, pos).
     bindE (r_u32le bs pos) (\<lambda>(dt1, pos).
     bindE (r_u32le bs pos) (\<lambda>(dt2, pos).
     Inr (Some \<lparr>Filename = filename, Unknow = unknow, BlockLen = blocklen,
                 Cluster = cluster, Parent = parent, Size = sz,
                 DateTime1 = dos_datetime_from_u32 dt1,
                 DateTime2 = dos_datetime_from_u32 dt2,
                 is_dir = (sz = 0 \<and> cluster = 0)\<rparr>, pos)))))))))"

section \<open>Clustered container: extraction\<close>

text \<open>
  The package object: the bytes of the open file and \<^verbatim>\<open>_pkg_size\<close>, which
  \<^verbatim>\<open>__init__\<close> sets to the length of the file.
\<close>

record pirs =
  pkg_bytes :: "byte list"
  pkg_size :: int
  entries :: "pirs_entry list"

text \<open>
  How the loop over the full blocks of \<^verbatim>\<open>_extract_entry\<close> ended: \<open>Exhausted\<close>
  when \<^verbatim>\<open>range(full_blocks)\<close> ran out, otherwise the \<^verbatim>\<open>break\<close> taken, in source
  order (lines 248, 253, 258, 264). The tag is not a variable of the program; it
  names the exit.
\<close>

datatype loop_exit = Exhausted | NotIncreasing | PastEnd | NothingLeft | ShortBlock

text \<open>
  The loop of \<^verbatim>\<open>_extract_entry\<close> from iteration \<open>i\<close>, with the variables it carries:
  \<open>last_off\<close>, \<open>remainder\<close> and the bytes \<open>w\<close> written so far. Every read follows
  an absolute seek, so the position of the file is not carried.
\<close>

function extract_loop ::
  "pirs \<Rightarrow> int \<Rightarrow> int \<Rightarrow> nat \<Rightarrow> int \<Rightarrow> int \<Rightarrow> byte list
     \<Rightarrow> error + (loop_exit \<times> int \<times> byte list)" where
  "extract_loop p start_cluster full_blocks i last_off remainder w =
     (if int i < full_blocks then
        (let off = get_offset (start_cluster + int i) in
         if off \<le> last_off then Inr (NotIncreasing, remainder, w)
         else let last_off = off in
           if off \<ge> pkg_size p then Inr (PastEnd, 0, w)
           else let to_read = min 4096 (pkg_size p - off) in
             if to_read \<le> 0 then Inr (NothingLeft, 0, w)
             else (case read_exact (pkg_bytes p) (nat off) (nat to_read) of
                     Inl err \<Rightarrow> Inl err
                   | Inr (b, pos) \<Rightarrow>
                       if to_read < 4096 then Inr (ShortBlock, 0, w @ b)
                       else extract_loop p start_cluster full_blocks (i + 1) last_off
                              remainder (w @ b)))
      else Inr (Exhausted, remainder, w))"
  by pat_completeness auto
termination
  by (relation "measure (\<lambda>(p, s, fb, i, l, r, w). nat (fb - int i))") auto

text \<open>
  \<^verbatim>\<open>PirsType2._extract_entry\<close>: \<open>None\<close> when it returns before opening the
  destination, otherwise the bytes written to it.
\<close>

definition extract_entry :: "pirs \<Rightarrow> pirs_entry \<Rightarrow> error + byte list option" where
  "extract_entry p e =
     (let sz = int (Size e) in
      if sz \<le> 0 then Inr None
      else
        let start_cluster = int (Cluster e);
            blocks_by_size = drop_bit 12 sz;
            blocks_by_blocklen = max 0 (BlockLen e);
            full_blocks = blocks_by_size;
            full_blocks = (if blocks_by_blocklen \<noteq> 0
                           then min full_blocks blocks_by_blocklen else full_blocks);
            remainder = sz - push_bit 12 full_blocks
        in case extract_loop p start_cluster full_blocks 0 (- 1) remainder [] of
             Inl err \<Rightarrow> Inl err
           | Inr (ex, remainder, w) \<Rightarrow>
               if remainder > 0 then
                 (let off = get_offset (start_cluster + full_blocks) in
                  if off < pkg_size p then
                    (let to_read = min remainder (pkg_size p - off) in
                     if to_read > 0 then
                       (case read_exact (pkg_bytes p) (nat off) (nat to_read) of
                          Inl err \<Rightarrow> Inl err
                        | Inr (b, pos) \<Rightarrow> Inr (Some (w @ b)))
                     else Inr (Some w))
                  else Inr (Some w))
               else Inr (Some w))"

text \<open>
  \<^verbatim>\<open>PirsType2.extract_all\<close> over a list of entries: the files written, by name,
  in order. Directory entries are skipped.
\<close>

fun extract_entries :: "pirs \<Rightarrow> pirs_entry list \<Rightarrow> error + (pystr \<times> byte list) list" where
  "extract_entries p [] = Inr []"
| "extract_entries p (e # es) =
     (if is_dir e then extract_entries p es
      else bindE (extract_entry p e) (\<lambda>r.
           bindE (extract_entries p es) (\<lambda>outs.
           Inr ((case r of None \<Rightarrow> [] | Some w \<Rightarrow> [(Filename e, w)]) @ outs))))"

definition extract_all :: "pirs \<Rightarrow> error + (pystr \<times> byte list) list" where
  "extract_all p = extract_entries p (entries p)"

text \<open>
  The number of full blocks that \<^verbatim>\<open>_extract_entry\<close> computes for an entry (lines
  231 to 235), named for use in statements.
\<close>

definition entry_full_blocks :: "pirs_entry \<Rightarrow> int" where
  "entry_full_blocks e =
     (if max 0 (BlockLen e) \<noteq> 0 then min (drop_bit 12 (int (Size e))) (max 0 (BlockLen e))
      else drop_bit 12 (int (Size e)))"

text \<open>
  \<^verbatim>\<open>PirsType2._read_entries\<close>: the table scan from slot \<open>idx\<close>. A read beyond
  the end of the file raises, so the scan ends.
\<close>

function read_entries ::
  "(byte list \<Rightarrow> pystr) \<Rightarrow> byte list \<Rightarrow> nat \<Rightarrow> pirs_entry list \<Rightarrow> error + pirs_entry list" where
  "read_entries dec bs idx es =
     (case read_entry dec bs (nat con_start + idx * 64) of
        Inl err \<Rightarrow> Inl err
      | Inr (None, pos) \<Rightarrow> Inr es
      | Inr (Some e, pos) \<Rightarrow> read_entries dec bs (idx + 1) (es @ [e]))"
  by pat_completeness auto
termination
proof (relation "measure (\<lambda>(dec, bs, idx, es). length bs - (nat con_start + idx * 64))")
  show "wf (measure (\<lambda>(dec, bs, idx, es). length bs - (nat con_start + idx * 64)))"
    by simp
next
  fix dec :: "byte list \<Rightarrow> pystr" and bs :: "byte list" and idx :: nat
    and es :: "pirs_entry list" and x :: "pirs_entry option \<times> nat"
    and oe :: "pirs_entry option" and pos :: nat and e :: pirs_entry
  assume a: "read_entry dec bs (nat con_start + idx * 64) = Inr x" and b: "(oe, pos) = x"
    and c: "oe = Some e"
  have "read_exact bs (nat con_start + idx * 64) 38 \<noteq> Inl EOFError"
    using a by (auto simp: read_entry_def read_fixed_str_def bindE_def)
  then have "nat con_start + idx * 64 + 38 \<le> length bs"
    by (auto simp: read_exact_def f_read_def Let_def split: if_splits)
  then show "((dec, bs, idx + 1, es @ [e]), (dec, bs, idx, es))
     \<in> measure (\<lambda>(dec, bs, idx, es). length bs - (nat con_start + idx * 64))"
    by simp
qed

text \<open>\<^verbatim>\<open>PirsType2.__init__\<close>.\<close>

definition pirs_init :: "(byte list \<Rightarrow> pystr) \<Rightarrow> byte list \<Rightarrow> error + pirs" where
  "pirs_init dec bs =
     (let pkg = int (length bs) in
      bindE (read_exact bs 0 4) (\<lambda>(magic, pos).
      if magic \<noteq> MAGIC_CON then Inl NotCON
      else bindE (read_entries dec bs 0 []) (\<lambda>es.
           Inr \<lparr>pkg_bytes = bs, pkg_size = pkg, entries = es\<rparr>)))"

section \<open>Synthetic table records\<close>

text \<open>
  The encoder of one 64-byte record of the entry table, field by field in the order
  \<^verbatim>\<open>_read_entry\<close> reads them; the name is padded with NUL bytes. It is not part
  of the program.
\<close>

definition entry_record ::
  "byte list \<Rightarrow> nat \<Rightarrow> nat \<Rightarrow> nat \<Rightarrow> nat \<Rightarrow> nat \<Rightarrow> nat \<Rightarrow> nat \<Rightarrow> byte list" where
  "entry_record name unk bl rawc parent sz dt1 dt2 =
     (name @ replicate (38 - length name) 0) @ le32 unk @ le32 bl @ le32 rawc @
     le16 parent @ le32 sz @ le32 dt1 @ le32 dt2"

section \<open>Example inputs\<close>

text \<open>An entry of 5000 bytes starting at cluster 0.\<close>

definition example_entry :: pirs_entry where
  "example_entry = \<lparr>Filename = [65], Unknow = 0, BlockLen = 0, Cluster = 0, Parent = 0,
     Size = 5000, DateTime1 = (1980, 0, 0, 0, 0, 0), DateTime2 = (1980, 0, 0, 0, 0, 0),
     is_dir = False\<rparr>"


text \<open>A package of three bytes, shorter than the table offset.\<close>

definition small_pkg :: pirs where
  "small_pkg = \<lparr>pkg_bytes = [1, 2, 3], pkg_size = 3, entries = []\<rparr>"

text \<open>
  A package one byte longer than the table offset, so that the block of cluster 0 is cut
  short.
\<close>

definition short_pkg :: pirs where
  "short_pkg = \<lparr>pkg_bytes = replicate 49153 7, pkg_size = 49153, entries = []\<rparr>"

text \<open>
  The defining equations of the three loops are unfolded one step at a time in the
  proofs, not by the simplifier.
\<close>

declare reorder_loop.simps [simp del]
declare extract_loop.simps [simp del]
declare read_entries.simps [simp del]

section \<open>Properties of the offset formula\<close>

lemma get_offset_unfold:
  "get_offset c = con_start + c * 4096
     + (if c div 170 > 0 then (c div 170 + 1) * con_offset else 0)
     + (if c div 170 div 170 > 0 then (c div 170 div 170 + 1) * con_offset else 0)"
  by (simp add: get_offset_def Let_def)

lemma get_offset_mono_step:
  assumes "0 \<le> c"
  shows "get_offset c < get_offset (c + 1)"
proof -
  have a: "c div 170 \<le> (c + 1) div 170"
    by (rule zdiv_mono1) simp_all
  have b: "c div 170 div 170 \<le> (c + 1) div 170 div 170"
    by (rule zdiv_mono1 [OF a]) simp
  have c1: "(if c div 170 > 0 then (c div 170 + 1) * con_offset else 0)
      \<le> (if (c + 1) div 170 > 0 then ((c + 1) div 170 + 1) * con_offset else 0)"
    using a by (auto simp: con_offset_def)
  have c2: "(if c div 170 div 170 > 0 then (c div 170 div 170 + 1) * con_offset else 0)
      \<le> (if (c + 1) div 170 div 170 > 0 then ((c + 1) div 170 div 170 + 1) * con_offset else 0)"
    using b by (auto simp: con_offset_def)
  define A where "A = (if c div 170 > 0 then (c div 170 + 1) * con_offset else 0)"
  define A' where
    "A' = (if (c + 1) div 170 > 0 then ((c + 1) div 170 + 1) * con_offset else 0)"
  define B where
    "B = (if c div 170 div 170 > 0 then (c div 170 div 170 + 1) * con_offset else 0)"
  define B' where
    "B' = (if (c + 1) div 170 div 170 > 0
           then ((c + 1) div 170 div 170 + 1) * con_offset else 0)"
  have "A \<le> A'" and "B \<le> B'"
    using c1 c2 by (simp_all only: A_def A'_def B_def B'_def)
  moreover have "get_offset c = con_start + c * 4096 + A + B"
    by (simp only: get_offset_unfold A_def B_def)
  moreover have "get_offset (c + 1) = con_start + (c + 1) * 4096 + A' + B'"
    by (simp only: get_offset_unfold A'_def B'_def)
  ultimately show ?thesis by (simp add: algebra_simps)
qed

lemma get_offset_strict_mono:
  assumes "0 \<le> c1" and "c1 < c2"
  shows "get_offset c1 < get_offset c2"
proof -
  have "get_offset c1 < get_offset (c1 + 1 + int k)" for k
  proof (induction k)
    case 0
    show ?case using get_offset_mono_step [OF assms(1)] by simp
  next
    case (Suc k)
    have "get_offset (c1 + 1 + int k) < get_offset (c1 + 1 + int k + 1)"
      by (rule get_offset_mono_step) (use assms(1) in linarith)
    with Suc show ?case by (simp add: add.assoc)
  qed
  from this [of "nat (c2 - c1 - 1)"] assms(2) show ?thesis by simp
qed

lemma get_offset_lower: "0 \<le> c \<Longrightarrow> con_start \<le> get_offset c"
proof -
  assume c: "0 \<le> c"
  then have "0 \<le> c div 170" by (simp add: pos_imp_zdiv_nonneg_iff)
  moreover then have "0 \<le> c div 170 div 170" by (simp add: pos_imp_zdiv_nonneg_iff)
  ultimately show ?thesis
    unfolding get_offset_unfold using c by (auto simp: con_offset_def)
qed

text \<open>
  C1 (as amended). For every cluster index \<open>c \<ge> 0\<close> the offset is
  \<open>49152 + c * 4096\<close>, plus \<open>(c div 170 + 1)\<close> index blocks of 8192 bytes once
  \<open>c \<ge> 170\<close>, plus \<open>(c div 28900 + 1)\<close> further index blocks once \<open>c \<ge> 28900\<close>:
  cluster 170 carries two corrections and cluster \<open>170 * 170\<close> carries
  \<open>171 + 2 = 173\<close>.
\<close>

theorem get_offset_formula:
  assumes "0 \<le> c"
  shows "get_offset c = 49152 + c * 4096
           + (if 170 \<le> c then (c div 170 + 1) * 8192 else 0)
           + (if 28900 \<le> c then (c div 28900 + 1) * 8192 else 0)
         \<and> get_offset 170 = 49152 + 170 * 4096 + 2 * 8192
         \<and> get_offset (170 * 170) = 49152 + (170 * 170) * 4096 + 173 * 8192"
proof -
  have d: "c div 170 div 170 = c div 28900"
    using zdiv_zmult2_eq [of 170 c 170] by simp
  have p1: "(c div 170 > 0) = (170 \<le> c)"
    using assms by (simp add: pos_imp_zdiv_pos_iff)
  have p2: "(c div 28900 > 0) = (28900 \<le> c)"
    using assms by (simp add: pos_imp_zdiv_pos_iff)
  have g: "get_offset c = 49152 + c * 4096
           + (if 170 \<le> c then (c div 170 + 1) * 8192 else 0)
           + (if 28900 \<le> c then (c div 28900 + 1) * 8192 else 0)"
    unfolding get_offset_unfold d p1 p2 by (simp add: con_start_def con_offset_def)
  have e1: "get_offset 170 = 49152 + 170 * 4096 + 2 * 8192"
    by (simp add: get_offset_def con_start_def con_offset_def)
  have e2: "get_offset (170 * 170) = 49152 + (170 * 170) * 4096 + 173 * 8192"
    by (simp add: get_offset_def con_start_def con_offset_def)
  from g e1 e2 show ?thesis by (intro conjI)
qed

theorem get_offset_formula_witness:
  "(0::int) \<le> 340 \<and> get_offset 340 = 49152 + 340 * 4096 + 3 * 8192"
  using get_offset_formula [of 340] by simp

theorem get_offset_one_correction_counterexample:
  "get_offset 170 \<noteq> spec_offset 170 \<and> get_offset 170 \<noteq> 49152 + 170 * 4096 + 1 * 8192"
  by (simp add: get_offset_def spec_offset_def con_start_def con_offset_def)

section \<open>Properties of the byte cursor\<close>

lemma bindE_Inr [simp]: "bindE (Inr a) k = k a"
  by (simp add: bindE_def)

lemma bindE_Inl [simp]: "bindE (Inl e) k = Inl e"
  by (simp add: bindE_def)

lemma bindE_eq_Inr: "bindE r k = Inr y \<longleftrightarrow> (\<exists>a. r = Inr a \<and> k a = Inr y)"
  by (cases r) (simp_all add: bindE_def)

lemma read_exact_Inr:
  "read_exact bs pos n = Inr (b, p) \<longleftrightarrow>
     (n = 0 \<or> pos + n \<le> length bs) \<and> b = take n (drop pos bs) \<and> p = pos + n"
  by (auto simp: read_exact_def f_read_def Let_def min_def)

lemma read_exact_Inl:
  "read_exact bs pos n = Inl e \<longleftrightarrow> n \<noteq> 0 \<and> length bs < pos + n \<and> e = EOFError"
  by (auto simp: read_exact_def f_read_def Let_def min_def)

lemma read_u32_le_Inr:
  "read_u32_le bs pos = Inr (v, p) \<longleftrightarrow>
     pos + 4 \<le> length bs \<and> v = le_nat (take 4 (drop pos bs)) \<and> p = pos + 4"
  by (auto simp: read_u32_le_def bindE_eq_Inr read_exact_Inr)

lemma read_u16_le_Inr:
  "read_u16_le bs pos = Inr (v, p) \<longleftrightarrow>
     pos + 2 \<le> length bs \<and> v = le_nat (take 2 (drop pos bs)) \<and> p = pos + 2"
  by (auto simp: read_u16_le_def bindE_eq_Inr read_exact_Inr)

lemma read_divider_Inr:
  "read_divider bs pos = Inr p \<longleftrightarrow> pos < length bs \<and> bs ! pos = PIPE \<and> p = pos + 1"
  by (auto simp: read_divider_def bindE_eq_Inr read_exact_Inr Let_def)

lemma read_bzstring_Inr:
  "read_bzstring bs pos sz = Inr (s, p) \<longleftrightarrow>
     (sz = 0 \<or> pos + sz \<le> length bs) \<and> s = latin1 (take sz (drop pos bs)) \<and> p = pos + sz"
  by (auto simp: read_bzstring_def bindE_eq_Inr read_exact_Inr latin1_def)

lemma length_le32 [simp]: "length (le32 n) = 4"
  by (simp add: le32_def)

lemma length_le16 [simp]: "length (le16 n) = 2"
  by (simp add: le16_def)

lemma byte_of_nat: "unat (of_nat n :: byte) = n mod 256"
  by (simp add: unat_of_nat)

lemma le_nat_le16:
  assumes "n < 2 ^ 16"
  shows "le_nat (le16 n) = n"
proof -
  have "n div 256 < 256" using assms by simp
  then have "n div 256 mod 256 = n div 256" by simp
  then show ?thesis by (simp add: le16_def byte_of_nat)
qed

lemma le_nat_le32:
  assumes "n < 2 ^ 32"
  shows "le_nat (le32 n) = n"
proof -
  define a where "a = n div 256"
  define b where "b = a div 256"
  define c where "c = b div 256"
  have e2: "n div 65536 = b"
    using div_mult2_eq [of n 256 256] by (simp add: a_def b_def)
  have e3: "n div 16777216 = c"
    using div_mult2_eq [of n 65536 256] by (simp add: e2 c_def)
  have "c < 256" using assms unfolding e3 [symmetric] by simp
  then have c: "c mod 256 = c" by simp
  have "n = n mod 256 + 256 * a" by (simp add: a_def)
  moreover have "a = a mod 256 + 256 * b" by (simp add: b_def)
  moreover have "b = b mod 256 + 256 * c" by (simp add: c_def)
  ultimately have "n = n mod 256 + 256 * (a mod 256 + 256 * (b mod 256 + 256 * c))"
    by simp
  then show ?thesis
    by (simp add: le32_def byte_of_nat e2 e3 c a_def [symmetric])
qed

lemma step_exact:
  assumes "drop pos bs = chunk @ rest"
  shows "read_exact bs pos (length chunk) = Inr (chunk, pos + length chunk)"
    and "drop (pos + length chunk) bs = rest"
proof -
  have "length (drop pos bs) = length chunk + length rest" by (simp add: assms)
  then have "length chunk = 0 \<or> pos + length chunk \<le> length bs"
    by (cases "pos \<le> length bs") auto
  then show "read_exact bs pos (length chunk) = Inr (chunk, pos + length chunk)"
    by (simp add: read_exact_Inr assms)
  have "drop (length chunk) (drop pos bs) = rest" by (simp add: assms)
  then show "drop (pos + length chunk) bs = rest" by (simp add: add.commute)
qed

lemma step_u32:
  assumes "drop pos bs = le32 v @ rest" and "v < 2 ^ 32"
  shows "read_u32_le bs pos = Inr (v, pos + 4)" and "drop (pos + 4) bs = rest"
  using step_exact [OF assms(1)] assms(2) by (simp_all add: read_u32_le_def le_nat_le32)

lemma step_u16:
  assumes "drop pos bs = le16 v @ rest" and "v < 2 ^ 16"
  shows "read_u16_le bs pos = Inr (v, pos + 2)" and "drop (pos + 2) bs = rest"
  using step_exact [OF assms(1)] assms(2) by (simp_all add: read_u16_le_def le_nat_le16)

lemma step_divider:
  assumes "drop pos bs = PIPE # rest"
  shows "read_divider bs pos = Inr (pos + 1)" and "drop (pos + 1) bs = rest"
  using step_exact [of pos bs "[PIPE]" rest] assms by (simp_all add: read_divider_def)

lemma step_bzstring:
  assumes "drop pos bs = raw @ rest"
  shows "read_bzstring bs pos (length raw) = Inr (latin1 raw, pos + length raw)"
    and "drop (pos + length raw) bs = rest"
  using step_exact [OF assms] by (auto simp: read_bzstring_def latin1_def)

section \<open>Properties of the header decoder\<close>

lemma parse_header_synth:
  fixes mid :: "byte list"
  assumes bs: "bs = MAGIC @ le32 hs @ le32 unk @ PIPE # le32 v @ mid @
                 header_fields h idx name karma lvl loc pt @ rest"
    and mid: "(v \<le> 16384 \<and> mid = [] \<and> w = v) \<or>
              (16384 < v \<and> (\<exists>skip. length skip = 60 \<and> mid = skip @ PIPE # le32 w))"
    and bounds: "hs < 2 ^ 32" "unk < 2 ^ 32" "v < 2 ^ 32" "w < 2 ^ 32" "h < 2 ^ 32"
      "idx < 2 ^ 32" "lvl < 2 ^ 32"
      "length name < 2 ^ 16" "length karma < 2 ^ 16" "length loc < 2 ^ 16" "length pt < 2 ^ 16"
  shows "parse_header bs 0 =
     Inr (\<lparr>width = w, height = h, save_index = idx,
           pc_name = latin1 name, pc_karma = latin1 karma, pc_level = lvl,
           pc_location = latin1 loc, playtime = latin1 pt, unknown1 = unk,
           screenshot_offset = 4 + hs, header_end_pos = length bs - length rest,
           header_start_pos = 0\<rparr>, length bs - length rest)"
proof -
  define r1 where "r1 = le32 unk @ PIPE # le32 v @ mid @
                 header_fields h idx name karma lvl loc pt @ rest"
  define r2 where "r2 = PIPE # le32 v @ mid @ header_fields h idx name karma lvl loc pt @ rest"
  define r3 where "r3 = mid @ header_fields h idx name karma lvl loc pt @ rest"
  define t0 where "t0 = header_fields h idx name karma lvl loc pt @ rest"
  have d0: "drop 0 bs = MAGIC @ le32 hs @ r1" by (simp add: bs r1_def)
  have len_magic: "length MAGIC = 11" by (simp add: MAGIC_def)
  note s0 = step_exact [OF d0, unfolded len_magic, simplified]
  note s1 = step_u32 [OF s0(2) bounds(1), simplified]
  have "r1 = le32 unk @ r2" by (simp add: r1_def r2_def)
  note s2 = step_u32 [OF s1(2) [unfolded this] bounds(2), simplified]
  have "r2 = PIPE # le32 v @ r3" by (simp add: r2_def r3_def)
  note s3 = step_divider [OF s2(2) [unfolded this], simplified]
  note s4 = step_u32 [OF s3(2) bounds(3), simplified]
  obtain pw where
    sw: "(if 16384 < v
          then (let pos = 24 + 60 in bindE (read_divider bs pos) (\<lambda>pos. read_u32_le bs pos))
          else Inr (v, 24)) = Inr (w, pw)"
    and dw: "drop pw bs = t0" and pw: "pw + length t0 = length bs"
  proof (cases "16384 < v")
    case False
    with mid have m: "mid = []" "w = v" by auto
    have "drop 24 bs = t0" using s4(2) by (simp add: r3_def m t0_def)
    moreover have "24 + length t0 = length bs"
      by (simp add: bs m t0_def len_magic)
    ultimately show ?thesis using that [of 24] False m by simp
  next
    case True
    with mid obtain skip where m: "length skip = 60" "mid = skip @ PIPE # le32 w" by auto
    have "drop 24 bs = skip @ PIPE # le32 w @ t0" using s4(2) by (simp add: r3_def m t0_def)
    note a = step_exact [OF this, unfolded m(1), simplified]
    note b = step_divider [OF a(2), simplified]
    note c = step_u32 [OF b(2) bounds(4), simplified]
    have "89 + length t0 = length bs"
      by (simp add: bs m t0_def len_magic)
    then show ?thesis using that [of 89] True b(1) c by simp
  qed
  define q1 where "q1 = pw + 1"
  define q2 where "q2 = q1 + 4"
  define q3 where "q3 = q2 + 1"
  define q4 where "q4 = q3 + 4"
  define q5 where "q5 = q4 + 1"
  define q6 where "q6 = q5 + 2"
  define q7 where "q7 = q6 + 1"
  define q8 where "q8 = q7 + length name"
  define q9 where "q9 = q8 + 1"
  define q10 where "q10 = q9 + 2"
  define q11 where "q11 = q10 + 1"
  define q12 where "q12 = q11 + length karma"
  define q13 where "q13 = q12 + 1"
  define q14 where "q14 = q13 + 4"
  define q15 where "q15 = q14 + 1"
  define q16 where "q16 = q15 + 2"
  define q17 where "q17 = q16 + 1"
  define q18 where "q18 = q17 + length loc"
  define q19 where "q19 = q18 + 1"
  define q20 where "q20 = q19 + 2"
  define q21 where "q21 = q20 + 1"
  define q22 where "q22 = q21 + length pt"
  have e0: "drop pw bs = PIPE # le32 h @ PIPE # le32 idx @
     PIPE # le16 (length name) @ PIPE # name @
     PIPE # le16 (length karma) @ PIPE # karma @
     PIPE # le32 lvl @
     PIPE # le16 (length loc) @ PIPE # loc @
     PIPE # le16 (length pt) @ PIPE # pt @ rest"
    by (simp add: dw t0_def header_fields_def)
  note u1 = step_divider [OF e0, folded q1_def]
  note u2 = step_u32 [OF u1(2) bounds(5), folded q2_def]
  note u3 = step_divider [OF u2(2), folded q3_def]
  note u4 = step_u32 [OF u3(2) bounds(6), folded q4_def]
  note u5 = step_divider [OF u4(2), folded q5_def]
  note u6 = step_u16 [OF u5(2) bounds(8), folded q6_def]
  note u7 = step_divider [OF u6(2), folded q7_def]
  note u8 = step_bzstring [OF u7(2), folded q8_def]
  note u9 = step_divider [OF u8(2), folded q9_def]
  note u10 = step_u16 [OF u9(2) bounds(9), folded q10_def]
  note u11 = step_divider [OF u10(2), folded q11_def]
  note u12 = step_bzstring [OF u11(2), folded q12_def]
  note u13 = step_divider [OF u12(2), folded q13_def]
  note u14 = step_u32 [OF u13(2) bounds(7), folded q14_def]
  note u15 = step_divider [OF u14(2), folded q15_def]
  note u16 = step_u16 [OF u15(2) bounds(10), folded q16_def]
  note u17 = step_divider [OF u16(2), folded q17_def]
  note u18 = step_bzstring [OF u17(2), folded q18_def]
  note u19 = step_divider [OF u18(2), folded q19_def]
  note u20 = step_u16 [OF u19(2) bounds(11), folded q20_def]
  note u21 = step_divider [OF u20(2), folded q21_def]
  have e21: "drop q21 bs = pt @ rest" using u21(2) by simp
  note u22 = step_bzstring [OF e21, folded q22_def]
  have "length t0 = 31 + length name + length karma + length loc + length pt + length rest"
    by (simp add: t0_def header_fields_def)
  then have fin: "q22 = length bs - length rest"
    using pw unfolding q22_def q21_def q20_def q19_def q18_def q17_def q16_def q15_def q14_def
      q13_def q12_def q11_def q10_def q9_def q8_def q7_def q6_def q5_def q4_def q3_def q2_def
      q1_def by linarith
  show ?thesis
    unfolding parse_header_def Let_def
    by (simp only: s0(1) s1(1) s2(1) s3(1) s4(1) sw [unfolded Let_def] u1(1) u2(1) u3(1) u4(1)
        u5(1) u6(1) u7(1) u8(1) u9(1) u10(1) u11(1) u12(1) u13(1) u14(1) u15(1) u16(1) u17(1)
        u18(1) u19(1) u20(1) u21(1) u22(1) bindE_Inr prod.case if_False simp_thms fin)
qed

lemma parse_header_Inr:
  assumes "parse_header bs 0 = Inr (m, p)"
  shows "take 11 bs = MAGIC"
    and "screenshot_offset m = 4 + le_nat (take 4 (drop 11 bs))"
    and "16384 < le_nat (take 4 (drop 20 bs)) \<Longrightarrow>
           bs ! 84 = PIPE \<and> width m = le_nat (take 4 (drop 85 bs)) \<and>
           bs ! 89 = PIPE \<and> height m = le_nat (take 4 (drop 90 bs))"
    and "\<not> 16384 < le_nat (take 4 (drop 20 bs)) \<Longrightarrow>
           width m = le_nat (take 4 (drop 20 bs)) \<and>
           bs ! 24 = PIPE \<and> height m = le_nat (take 4 (drop 25 bs))"
  using assms
  unfolding parse_header_def Let_def
  by (auto simp: bindE_eq_Inr read_exact_Inr read_u32_le_Inr read_divider_Inr split: if_splits)

lemma length_header_fields:
  "length (header_fields h idx name karma lvl loc pt) =
     31 + length name + length karma + length loc + length pt"
  by (simp add: header_fields_def)

lemma length_MAGIC: "length MAGIC = 11"
  by (simp add: MAGIC_def)

lemma parse_header_flat:
  assumes "w \<le> 16384"
    and "hs < 2 ^ 32" "unk < 2 ^ 32" "h < 2 ^ 32" "idx < 2 ^ 32" "lvl < 2 ^ 32"
    and "length name < 2 ^ 16" "length karma < 2 ^ 16" "length loc < 2 ^ 16"
      "length pt < 2 ^ 16"
  shows "parse_header (flat_header hs unk w (header_fields h idx name karma lvl loc pt) @ rest) 0 =
     Inr (\<lparr>width = w, height = h, save_index = idx,
           pc_name = latin1 name, pc_karma = latin1 karma, pc_level = lvl,
           pc_location = latin1 loc, playtime = latin1 pt, unknown1 = unk,
           screenshot_offset = 4 + hs,
           header_end_pos = 55 + length name + length karma + length loc + length pt,
           header_start_pos = 0\<rparr>,
          55 + length name + length karma + length loc + length pt)"
proof -
  define bs where
    "bs = flat_header hs unk w (header_fields h idx name karma lvl loc pt) @ rest"
  have bs: "bs = MAGIC @ le32 hs @ le32 unk @ PIPE # le32 w @ [] @
                 header_fields h idx name karma lvl loc pt @ rest"
    by (simp add: bs_def flat_header_def)
  have w: "w < 2 ^ 32" using assms(1) by simp
  have len: "length bs - length rest =
      55 + length name + length karma + length loc + length pt"
    by (simp add: bs length_MAGIC length_header_fields)
  have mid: "(w \<le> 16384 \<and> ([]::byte list) = [] \<and> w = w) \<or>
      (16384 < w \<and> (\<exists>s. length s = 60 \<and> ([]::byte list) = s @ PIPE # le32 w))"
    using assms(1) by simp
  note r = parse_header_synth [OF bs mid assms(2,3) w w assms(4,5,6,7,8,9,10)]
  from r [unfolded len] show ?thesis by (simp only: bs_def)
qed

lemma parse_header_legacy:
  assumes "16384 < bogus" and "length skip = 60"
    and "hs < 2 ^ 32" "unk < 2 ^ 32" "bogus < 2 ^ 32" "w < 2 ^ 32" "h < 2 ^ 32"
      "idx < 2 ^ 32" "lvl < 2 ^ 32"
    and "length name < 2 ^ 16" "length karma < 2 ^ 16" "length loc < 2 ^ 16"
      "length pt < 2 ^ 16"
  shows "parse_header
           (legacy_header hs unk bogus skip w (header_fields h idx name karma lvl loc pt) @ rest) 0 =
     Inr (\<lparr>width = w, height = h, save_index = idx,
           pc_name = latin1 name, pc_karma = latin1 karma, pc_level = lvl,
           pc_location = latin1 loc, playtime = latin1 pt, unknown1 = unk,
           screenshot_offset = 4 + hs,
           header_end_pos = 120 + length name + length karma + length loc + length pt,
           header_start_pos = 0\<rparr>,
          120 + length name + length karma + length loc + length pt)"
proof -
  define bs where
    "bs = legacy_header hs unk bogus skip w (header_fields h idx name karma lvl loc pt) @ rest"
  have bs: "bs = MAGIC @ le32 hs @ le32 unk @ PIPE # le32 bogus @ (skip @ PIPE # le32 w) @
                 header_fields h idx name karma lvl loc pt @ rest"
    by (simp add: bs_def legacy_header_def)
  have mid: "(bogus \<le> 16384 \<and> skip @ PIPE # le32 w = [] \<and> w = bogus) \<or>
      (16384 < bogus \<and> (\<exists>s. length s = 60 \<and> skip @ PIPE # le32 w = s @ PIPE # le32 w))"
    using assms(1,2) by auto
  have len: "length bs - length rest =
      120 + length name + length karma + length loc + length pt"
    by (simp add: bs length_MAGIC length_header_fields assms(2))
  note r = parse_header_synth [OF bs mid assms(3,4,5,6,7,8,9,10,11,12,13)]
  from r [unfolded len] show ?thesis by (simp only: bs_def)
qed

lemma read_exact_short: "n \<noteq> 0 \<Longrightarrow> length bs < pos + n \<Longrightarrow> read_exact bs pos n = Inl EOFError"
  using read_exact_Inl [of bs pos n EOFError] by simp

lemma step_exact_n:
  "drop pos bs = chunk @ rest \<Longrightarrow> length chunk = n \<Longrightarrow>
     read_exact bs pos n = Inr (chunk, pos + n)"
  using step_exact(1) by blast

lemma reorder_channels_Nil: "reorder_channels [] = Inr []"
  by (simp add: reorder_channels_def reorder_loop.simps [of "[]"])

lemma legacy_header_bytes:
  assumes "length skip = 60" and "bogus < 2 ^ 32" and "w < 2 ^ 32"
  shows "le_nat (take 4 (drop 20 (legacy_header hs unk bogus skip w flds @ rest))) = bogus"
    and "(legacy_header hs unk bogus skip w flds @ rest) ! 84 = PIPE"
    and "le_nat (take 4 (drop 85 (legacy_header hs unk bogus skip w flds @ rest))) = w"
proof -
  define bs where "bs = legacy_header hs unk bogus skip w flds @ rest"
  have "bs = (MAGIC @ le32 hs @ le32 unk @ [PIPE]) @ le32 bogus @ (skip @ PIPE # le32 w @ flds @ rest)"
    by (simp add: bs_def legacy_header_def)
  then have "drop 20 bs = le32 bogus @ (skip @ PIPE # le32 w @ flds @ rest)"
    by (simp add: length_MAGIC)
  then have "take 4 (drop 20 bs) = le32 bogus" by simp
  then show "le_nat (take 4 (drop 20 (legacy_header hs unk bogus skip w flds @ rest))) = bogus"
    using assms(2) by (simp add: bs_def le_nat_le32)
  have e: "bs = (MAGIC @ le32 hs @ le32 unk @ [PIPE] @ le32 bogus @ skip) @ PIPE # (le32 w @ flds @ rest)"
    by (simp add: bs_def legacy_header_def)
  have l: "length (MAGIC @ le32 hs @ le32 unk @ [PIPE] @ le32 bogus @ skip) = 84"
    by (simp add: length_MAGIC assms(1))
  from e l have "bs ! 84 = PIPE" by (metis nth_append_length)
  then show "(legacy_header hs unk bogus skip w flds @ rest) ! 84 = PIPE" by (simp add: bs_def)
  have "bs = (MAGIC @ le32 hs @ le32 unk @ [PIPE] @ le32 bogus @ skip @ [PIPE]) @ le32 w @ (flds @ rest)"
    by (simp add: bs_def legacy_header_def)
  then have "drop 85 bs = le32 w @ (flds @ rest)"
    by (simp add: length_MAGIC assms(1))
  then have "take 4 (drop 85 bs) = le32 w" by simp
  then show "le_nat (take 4 (drop 85 (legacy_header hs unk bogus skip w flds @ rest))) = w"
    using assms(3) by (simp add: bs_def le_nat_le32)
qed

text \<open>
  C3. On every accepted input the width is decided by the 32-bit value at byte 20, after
  the first divider: if it exceeds 16384 the decoder has skipped 60 bytes, found a divider
  at byte 84 and taken the value at byte 85 as the width, otherwise the first value is the
  width. And every synthetic header made of a bogus first value above 16384, a 60-byte
  block, a divider and a real width decodes to that width.
\<close>

theorem legacy_width_reread:
  "(parse_header bs 0 = Inr (m, p) \<longrightarrow>
      (if 16384 < le_nat (take 4 (drop 20 bs))
       then bs ! 84 = PIPE \<and> width m = le_nat (take 4 (drop 85 bs))
       else width m = le_nat (take 4 (drop 20 bs)))) \<and>
   (16384 < bogus \<and> bogus < 2 ^ 32 \<and> length skip = 60 \<and> w < 2 ^ 32 \<and>
    hs < 2 ^ 32 \<and> unk < 2 ^ 32 \<and> h < 2 ^ 32 \<and> idx < 2 ^ 32 \<and> lvl < 2 ^ 32 \<and>
    length name < 2 ^ 16 \<and> length karma < 2 ^ 16 \<and> length loc < 2 ^ 16 \<and>
    length pt < 2 ^ 16 \<longrightarrow>
      (\<exists>m' p'. parse_header
          (legacy_header hs unk bogus skip w (header_fields h idx name karma lvl loc pt) @ rest) 0
            = Inr (m', p') \<and> width m' = w))"
proof (intro conjI impI)
  assume a: "parse_header bs 0 = Inr (m, p)"
  show "if 16384 < le_nat (take 4 (drop 20 bs))
       then bs ! 84 = PIPE \<and> width m = le_nat (take 4 (drop 85 bs))
       else width m = le_nat (take 4 (drop 20 bs))"
    using parse_header_Inr(3,4) [OF a] by (cases "16384 < le_nat (take 4 (drop 20 bs))") simp_all
next
  assume b: "16384 < bogus \<and> bogus < 2 ^ 32 \<and> length skip = 60 \<and> w < 2 ^ 32 \<and>
    hs < 2 ^ 32 \<and> unk < 2 ^ 32 \<and> h < 2 ^ 32 \<and> idx < 2 ^ 32 \<and> lvl < 2 ^ 32 \<and>
    length name < 2 ^ 16 \<and> length karma < 2 ^ 16 \<and> length loc < 2 ^ 16 \<and>
    length pt < 2 ^ 16"
  have "parse_header
          (legacy_header hs unk bogus skip w (header_fields h idx name karma lvl loc pt) @ rest) 0 =
     Inr (\<lparr>width = w, height = h, save_index = idx,
           pc_name = latin1 name, pc_karma = latin1 karma, pc_level = lvl,
           pc_location = latin1 loc, playtime = latin1 pt, unknown1 = unk,
           screenshot_offset = 4 + hs,
           header_end_pos = 120 + length name + length karma + length loc + length pt,
           header_start_pos = 0\<rparr>,
          120 + length name + length karma + length loc + length pt)"
    by (rule parse_header_legacy) (use b in simp_all)
  then show "\<exists>m' p'. parse_header
          (legacy_header hs unk bogus skip w (header_fields h idx name karma lvl loc pt) @ rest) 0
            = Inr (m', p') \<and> width m' = w"
    by simp
qed

theorem legacy_width_reread_witness:
  "parse_header (legacy_header 51 0 70000 (replicate 60 0) 2 (header_fields 1 7 [] [] 3 [] [])) 0 =
     Inr (\<lparr>width = 2, height = 1, save_index = 7, pc_name = [], pc_karma = [], pc_level = 3,
           pc_location = [], playtime = [], unknown1 = 0, screenshot_offset = 55,
           header_end_pos = 120, header_start_pos = 0\<rparr>, 120) \<and>
   16384 < le_nat (take 4 (drop 20
      (legacy_header 51 0 70000 (replicate 60 0) 2 (header_fields 1 7 [] [] 3 [] [])))) \<and>
   legacy_header 51 0 70000 (replicate 60 0) 2 (header_fields 1 7 [] [] 3 [] []) ! 84 = PIPE \<and>
   le_nat (take 4 (drop 85
      (legacy_header 51 0 70000 (replicate 60 0) 2 (header_fields 1 7 [] [] 3 [] [])))) = 2"
proof -
  define bs :: "byte list" where
    "bs = legacy_header 51 0 70000 (replicate 60 0) 2 (header_fields 1 7 [] [] 3 [] [])"
  define m where "m = \<lparr>width = 2, height = 1, save_index = 7, pc_name = [], pc_karma = [],
           pc_level = 3, pc_location = [], playtime = [], unknown1 = 0, screenshot_offset = 55,
           header_end_pos = 120, header_start_pos = 0\<rparr>"
  have ph: "parse_header bs 0 = Inr (m, 120)"
    using parse_header_legacy [of 70000 "replicate 60 0" 51 0 2 1 7 3 "[]" "[]" "[]" "[]" "[]"]
    by (simp add: bs_def m_def latin1_def)
  have f: "le_nat (take 4 (drop 20 bs)) = 70000"
    using legacy_header_bytes(1) [of "replicate 60 0" 70000 2 51 0 "header_fields 1 7 [] [] 3 [] []" "[]"]
    by (simp add: bs_def)
  note t = legacy_width_reread [of bs m 120 70000 "replicate 60 0" 2 51 0 1 7 3
      "[]" "[]" "[]" "[]" "[]"]
  from t have "\<exists>m' p'. parse_header bs 0 = Inr (m', p') \<and> width m' = 2"
    by (simp add: bs_def)
  then have w: "width m = 2" using ph by auto
  from t ph f
  have "bs ! 84 = PIPE \<and> width m = le_nat (take 4 (drop 85 bs))" by simp
  then have "bs ! 84 = PIPE \<and> le_nat (take 4 (drop 85 bs)) = 2" using w by simp
  with ph f show ?thesis unfolding bs_def m_def by simp
qed

text \<open>
  C10. The legacy branch is taken once. On every accepted input whose first value is
  above 16384, the value at byte 85 is the width whatever its size, and the decoder goes
  on with the divider at byte 89 and the height at byte 90. And with a first value above
  16384 and a re-read value that is itself above 16384, decoding a synthetic header
  succeeds, the re-read value is the width, and the header ends 120 bytes plus the
  lengths of the four strings after its start, that is after one skip of 60 bytes.
\<close>

theorem legacy_branch_once:
  "(parse_header bs 0 = Inr (m, p) \<and> 16384 < le_nat (take 4 (drop 20 bs)) \<longrightarrow>
      width m = le_nat (take 4 (drop 85 bs)) \<and> bs ! 89 = PIPE \<and>
      height m = le_nat (take 4 (drop 90 bs))) \<and>
   (16384 < bogus \<and> bogus < 2 ^ 32 \<and> 16384 < w \<and> w < 2 ^ 32 \<and> length skip = 60 \<and>
    hs < 2 ^ 32 \<and> unk < 2 ^ 32 \<and> h < 2 ^ 32 \<and> idx < 2 ^ 32 \<and> lvl < 2 ^ 32 \<and>
    length name < 2 ^ 16 \<and> length karma < 2 ^ 16 \<and> length loc < 2 ^ 16 \<and>
    length pt < 2 ^ 16 \<longrightarrow>
      parse_header
        (legacy_header hs unk bogus skip w (header_fields h idx name karma lvl loc pt) @ rest) 0 =
      Inr (\<lparr>width = w, height = h, save_index = idx,
            pc_name = latin1 name, pc_karma = latin1 karma, pc_level = lvl,
            pc_location = latin1 loc, playtime = latin1 pt, unknown1 = unk,
            screenshot_offset = 4 + hs,
            header_end_pos = 120 + length name + length karma + length loc + length pt,
            header_start_pos = 0\<rparr>,
           120 + length name + length karma + length loc + length pt))"
proof (intro conjI impI)
  assume a: "parse_header bs 0 = Inr (m, p) \<and> 16384 < le_nat (take 4 (drop 20 bs))"
  then have ph: "parse_header bs 0 = Inr (m, p)"
    and big: "16384 < le_nat (take 4 (drop 20 bs))" by simp_all
  from parse_header_Inr(3) [OF ph big]
  show "width m = le_nat (take 4 (drop 85 bs))" and "bs ! 89 = PIPE"
    and "height m = le_nat (take 4 (drop 90 bs))"
    by simp_all
next
  assume b: "16384 < bogus \<and> bogus < 2 ^ 32 \<and> 16384 < w \<and> w < 2 ^ 32 \<and> length skip = 60 \<and>
    hs < 2 ^ 32 \<and> unk < 2 ^ 32 \<and> h < 2 ^ 32 \<and> idx < 2 ^ 32 \<and> lvl < 2 ^ 32 \<and>
    length name < 2 ^ 16 \<and> length karma < 2 ^ 16 \<and> length loc < 2 ^ 16 \<and>
    length pt < 2 ^ 16"
  show "parse_header
        (legacy_header hs unk bogus skip w (header_fields h idx name karma lvl loc pt) @ rest) 0 =
      Inr (\<lparr>width = w, height = h, save_index = idx,
            pc_name = latin1 name, pc_karma = latin1 karma, pc_level = lvl,
            pc_location = latin1 loc, playtime = latin1 pt, unknown1 = unk,
            screenshot_offset = 4 + hs,
            header_end_pos = 120 + length name + length karma + length loc + length pt,
            header_start_pos = 0\<rparr>,
           120 + length name + length karma + length loc + length pt)"
    by (rule parse_header_legacy) (use b in simp_all)
qed

theorem legacy_branch_once_witness:
  "parse_header (legacy_header 51 0 70000 (replicate 60 0) 20000
                   (header_fields 1 7 [] [] 3 [] [])) 0 =
     Inr (\<lparr>width = 20000, height = 1, save_index = 7, pc_name = [], pc_karma = [],
           pc_level = 3, pc_location = [], playtime = [], unknown1 = 0, screenshot_offset = 55,
           header_end_pos = 120, header_start_pos = 0\<rparr>, 120) \<and>
   le_nat (take 4 (drop 20 (legacy_header 51 0 70000 (replicate 60 0) 20000
                   (header_fields 1 7 [] [] 3 [] [])))) = 70000 \<and>
   le_nat (take 4 (drop 85 (legacy_header 51 0 70000 (replicate 60 0) 20000
                   (header_fields 1 7 [] [] 3 [] [])))) = 20000 \<and>
   legacy_header 51 0 70000 (replicate 60 0) 20000 (header_fields 1 7 [] [] 3 [] []) ! 89 = PIPE \<and>
   le_nat (take 4 (drop 90 (legacy_header 51 0 70000 (replicate 60 0) 20000
                   (header_fields 1 7 [] [] 3 [] [])))) = 1"
proof -
  define bs :: "byte list" where
    "bs = legacy_header 51 0 70000 (replicate 60 0) 20000 (header_fields 1 7 [] [] 3 [] [])"
  define m where "m = \<lparr>width = 20000, height = 1, save_index = 7, pc_name = [], pc_karma = [],
           pc_level = 3, pc_location = [], playtime = [], unknown1 = 0, screenshot_offset = 55,
           header_end_pos = 120, header_start_pos = 0\<rparr>"
  note t = legacy_branch_once [of bs m 120 70000 20000 "replicate 60 0" 51 0 1 7 3
      "[]" "[]" "[]" "[]" "[]"]
  have ph: "parse_header bs 0 = Inr (m, 120)"
    using t by (simp add: bs_def m_def latin1_def)
  have f: "le_nat (take 4 (drop 20 bs)) = 70000"
    using legacy_header_bytes(1) [of "replicate 60 0" 70000 20000 51 0
        "header_fields 1 7 [] [] 3 [] []" "[]"]
    by (simp add: bs_def)
  from t ph f have g: "width m = le_nat (take 4 (drop 85 bs)) \<and> bs ! 89 = PIPE \<and>
      height m = le_nat (take 4 (drop 90 bs))" by simp
  then have "le_nat (take 4 (drop 85 bs)) = 20000 \<and> bs ! 89 = PIPE \<and>
      le_nat (take 4 (drop 90 bs)) = 1" by (simp add: m_def)
  with ph f show ?thesis unfolding bs_def m_def by simp
qed

section \<open>Properties of the block loop\<close>

lemma extract_loop_not_NotIncreasing:
  "0 \<le> start \<Longrightarrow> last_off < get_offset (start + int i) \<Longrightarrow>
     extract_loop p start fb i last_off r w \<noteq> Inr (NotIncreasing, r', w')"
proof (induction p start fb i last_off r w rule: extract_loop.induct)
  case (1 p start_cluster full_blocks i last_off remainder w)
  have mono: "get_offset (start_cluster + int i) < get_offset (start_cluster + int (i + 1))"
    by (rule get_offset_strict_mono) (use "1.prems" in simp_all)
  show ?case
  proof
    assume a: "extract_loop p start_cluster full_blocks i last_off remainder w =
       Inr (NotIncreasing, r', w')"
    show False
      using a "1.prems" "1.IH" mono
      by (subst (asm) extract_loop.simps)
         (auto simp: Let_def split: if_splits sum.splits prod.splits)
  qed
qed

lemma extract_loop_early_exit:
  "extract_loop p start fb i last_off r w = Inr (ex, r', w') \<Longrightarrow>
     ex \<noteq> Exhausted \<Longrightarrow> ex \<noteq> NotIncreasing \<Longrightarrow> r' = 0"
proof (induction p start fb i last_off r w rule: extract_loop.induct)
  case (1 p start_cluster full_blocks i last_off remainder w)
  show ?case
    using "1.prems" "1.IH"
    by (subst (asm) extract_loop.simps)
       (auto simp: Let_def split: if_splits sum.splits prod.splits)
qed

lemma extract_loop_Exhausted:
  "extract_loop p start fb i last_off r w = Inr (Exhausted, r', w') \<Longrightarrow> r' = r"
proof (induction p start fb i last_off r w rule: extract_loop.induct)
  case (1 p start_cluster full_blocks i last_off remainder w)
  show ?case
    using "1.prems" "1.IH"
    by (subst (asm) extract_loop.simps)
       (auto simp: Let_def split: if_splits sum.splits prod.splits)
qed

lemma get_offset_initial: "0 \<le> start \<Longrightarrow> - 1 < get_offset (start + int 0)"
  using get_offset_lower [of start] by (simp add: con_start_def)

text \<open>
  C9. The offset function is strictly increasing on the non-negative cluster indices,
  and the loop over the full blocks, started as \<^verbatim>\<open>_extract_entry\<close> starts it
  (\<open>i = 0\<close>, \<open>last_off = -1\<close>) at a non-negative start cluster, never leaves through
  the break taken when an offset is not above the previous one.
\<close>

theorem offsets_strictly_increase:
  "(0 \<le> c1 \<and> c1 < c2 \<longrightarrow> get_offset c1 < get_offset c2) \<and>
   (0 \<le> start \<longrightarrow> extract_loop p start fb 0 (- 1) r [] \<noteq> Inr (NotIncreasing, r', w'))"
proof (intro conjI impI)
  assume "0 \<le> c1 \<and> c1 < c2"
  then show "get_offset c1 < get_offset c2"
    by (simp add: get_offset_strict_mono)
next
  assume s: "0 \<le> start"
  show "extract_loop p start fb 0 (- 1) r [] \<noteq> Inr (NotIncreasing, r', w')"
    by (rule extract_loop_not_NotIncreasing [OF s get_offset_initial [OF s]])
qed

theorem offsets_strictly_increase_witness:
  "(0::int) \<le> 169 \<and> (169::int) < 170 \<and> get_offset 169 < get_offset 170 \<and>
   extract_loop small_pkg 0 1 0 (- 1) 904 [] = Inr (PastEnd, 0, []) \<and>
   extract_loop small_pkg 0 1 0 (- 1) 904 [] \<noteq> Inr (NotIncreasing, 904, [])"
proof -
  have a: "get_offset 169 < get_offset 170"
    using offsets_strictly_increase [of 169 170] by simp
  have b: "extract_loop small_pkg 0 1 0 (- 1) 904 [] \<noteq> Inr (NotIncreasing, 904, [])"
    using offsets_strictly_increase [of _ _ 0 small_pkg 1 904 904 "[]"] by simp
  have c: "extract_loop small_pkg 0 1 0 (- 1) 904 [] = Inr (PastEnd, 0, [])"
    by (subst extract_loop.simps)
       (simp add: small_pkg_def get_offset_def con_start_def con_offset_def)
  from a b c show ?thesis by simp
qed

lemma extract_loop_past_end:
  assumes "int i < fb" "last_off < get_offset (start + int i)"
    "pkg_size p \<le> get_offset (start + int i)"
  shows "extract_loop p start fb i last_off r w = Inr (PastEnd, 0, w)"
  using assms by (subst extract_loop.simps) (simp add: Let_def)

lemma extract_loop_short_block:
  assumes "int i < fb" "last_off < get_offset (start + int i)"
    "get_offset (start + int i) < pkg_size p"
    "pkg_size p - get_offset (start + int i) < 4096"
  shows "extract_loop p start fb i last_off r w =
     (case read_exact (pkg_bytes p) (nat (get_offset (start + int i)))
             (nat (pkg_size p - get_offset (start + int i))) of
        Inl err \<Rightarrow> Inl err
      | Inr (b, pos) \<Rightarrow> Inr (ShortBlock, 0, w @ b))"
  using assms
  by (subst extract_loop.simps) (simp add: Let_def min_def split: sum.splits prod.splits)

text \<open>
  The guards of one iteration of the loop over the full blocks. The break for an offset
  that is not above the previous one leaves the remainder as it is; the two other
  breaks, in an iteration whose offset is above the previous one, set it to 0. For an
  entry with data, when the loop as \<^verbatim>\<open>_extract_entry\<close> starts it stops early,
  the remainder it leaves is 0 and nothing is written after the bytes of the loop.
\<close>

lemma extract_loop_not_increasing:
  assumes "int i < fb" "get_offset (start + int i) \<le> last_off"
  shows "extract_loop p start fb i last_off r w = Inr (NotIncreasing, r, w)"
  using assms by (subst extract_loop.simps) (simp add: Let_def)

lemma extract_loop_guards:
  "(int i < fb \<and> last_off < get_offset (start + int i) \<and>
    pkg_size p \<le> get_offset (start + int i) \<longrightarrow>
      extract_loop p start fb i last_off r w = Inr (PastEnd, 0, w)) \<and>
   (int i < fb \<and> last_off < get_offset (start + int i) \<and>
    get_offset (start + int i) < pkg_size p \<and>
    pkg_size p - get_offset (start + int i) < 4096 \<longrightarrow>
      extract_loop p start fb i last_off r w =
        (case read_exact (pkg_bytes p) (nat (get_offset (start + int i)))
                (nat (pkg_size p - get_offset (start + int i))) of
           Inl err \<Rightarrow> Inl err
         | Inr (b, pos) \<Rightarrow> Inr (ShortBlock, 0, w @ b))) \<and>
   (0 < Size e \<and>
    extract_loop p (int (Cluster e)) (entry_full_blocks e) 0 (- 1)
      (int (Size e) - push_bit 12 (entry_full_blocks e)) [] = Inr (ex, r', w') \<and>
    ex \<noteq> Exhausted \<longrightarrow> r' = 0 \<and> extract_entry p e = Inr (Some w'))"
proof (intro conjI impI)
  assume "int i < fb \<and> last_off < get_offset (start + int i) \<and>
    pkg_size p \<le> get_offset (start + int i)"
  then show "extract_loop p start fb i last_off r w = Inr (PastEnd, 0, w)"
    by (simp add: extract_loop_past_end)
next
  assume "int i < fb \<and> last_off < get_offset (start + int i) \<and>
    get_offset (start + int i) < pkg_size p \<and>
    pkg_size p - get_offset (start + int i) < 4096"
  then show "extract_loop p start fb i last_off r w =
        (case read_exact (pkg_bytes p) (nat (get_offset (start + int i)))
                (nat (pkg_size p - get_offset (start + int i))) of
           Inl err \<Rightarrow> Inl err
         | Inr (b, pos) \<Rightarrow> Inr (ShortBlock, 0, w @ b))"
    by (simp add: extract_loop_short_block)
next
  assume a: "0 < Size e \<and>
    extract_loop p (int (Cluster e)) (entry_full_blocks e) 0 (- 1)
      (int (Size e) - push_bit 12 (entry_full_blocks e)) [] = Inr (ex, r', w') \<and>
    ex \<noteq> Exhausted"
  then have run: "extract_loop p (int (Cluster e)) (entry_full_blocks e) 0 (- 1)
      (int (Size e) - push_bit 12 (entry_full_blocks e)) [] = Inr (ex, r', w')"
    and ex: "ex \<noteq> Exhausted" and sz: "0 < Size e" by simp_all
  have ni: "ex \<noteq> NotIncreasing"
    using extract_loop_not_NotIncreasing [OF _ get_offset_initial, of "int (Cluster e)"] run
    by auto
  show r: "r' = 0"
    by (rule extract_loop_early_exit [OF run ex ni])
  show "extract_entry p e = Inr (Some w')"
    using sz run unfolding extract_entry_def Let_def entry_full_blocks_def r
    by simp
qed

section \<open>Properties of the entry table\<close>

lemma read_entry_is_dir:
  "read_entry dec bs pos = Inr (Some e, pos') \<Longrightarrow> is_dir e \<longleftrightarrow> (Size e = 0 \<and> Cluster e = 0)"
  unfolding read_entry_def Let_def
  by (auto simp: bindE_eq_Inr split: if_splits)

lemma read_entries_is_dir:
  "read_entries dec bs idx es = Inr es' \<Longrightarrow>
     \<forall>e \<in> set es. is_dir e \<longleftrightarrow> (Size e = 0 \<and> Cluster e = 0) \<Longrightarrow>
     \<forall>e \<in> set es'. is_dir e \<longleftrightarrow> (Size e = 0 \<and> Cluster e = 0)"
proof (induction dec bs idx es rule: read_entries.induct)
  case (1 dec bs idx es)
  show ?case
  proof (cases "read_entry dec bs (nat con_start + idx * 64)")
    case (Inl err)
    with "1.prems"(1) show ?thesis by (subst (asm) read_entries.simps) simp
  next
    case (Inr x)
    obtain oe pos where x: "x = (oe, pos)" by (cases x)
    show ?thesis
    proof (cases oe)
      case None
      with "1.prems" Inr x show ?thesis by (subst (asm) read_entries.simps) simp
    next
      case (Some e)
      have d: "is_dir e \<longleftrightarrow> (Size e = 0 \<and> Cluster e = 0)"
        using read_entry_is_dir Inr x Some by blast
      have r: "read_entries dec bs (idx + 1) (es @ [e]) = Inr es'"
        using "1.prems"(1) Inr x Some by (subst (asm) read_entries.simps) simp
      show ?thesis
        by (rule "1.IH" [OF Inr x [symmetric] Some r]) (use "1.prems"(2) d in auto)
    qed
  qed
qed

lemma pirs_init_is_dir:
  assumes "pirs_init dec bs = Inr p"
  shows "\<forall>e \<in> set (entries p). is_dir e \<longleftrightarrow> (Size e = 0 \<and> Cluster e = 0)"
proof -
  from assms obtain es where es: "read_entries dec bs 0 [] = Inr es" and p: "entries p = es"
    unfolding pirs_init_def Let_def
    by (auto simp: bindE_eq_Inr split: if_splits)
  from read_entries_is_dir [OF es] p show ?thesis by simp
qed

lemma extract_entry_empty: "Size e = 0 \<Longrightarrow> extract_entry p e = Inr None"
  by (simp add: extract_entry_def)

lemma step_r_u32:
  assumes "drop pos bs = le32 v @ rest" and "v < 2 ^ 32"
  shows "r_u32le bs pos = Inr (v, pos + 4)" and "drop (pos + 4) bs = rest"
  using step_exact [OF assms(1)] assms(2) by (simp_all add: r_u32le_def le_nat_le32)

lemma step_r_u16:
  assumes "drop pos bs = le16 v @ rest" and "v < 2 ^ 16"
  shows "r_u16le bs pos = Inr (v, pos + 2)" and "drop (pos + 2) bs = rest"
  using step_exact [OF assms(1)] assms(2) by (simp_all add: r_u16le_def le_nat_le16)

lemma step_r_i32:
  assumes "drop pos bs = le32 v @ rest" and "v < 2 ^ 31"
  shows "r_i32le bs pos = Inr (int v, pos + 4)" and "drop (pos + 4) bs = rest"
proof -
  have v: "v < 2 ^ 32" using assms(2) by simp
  have "\<not> (2147483648 \<le> int v)" using assms(2) by simp
  then show "r_i32le bs pos = Inr (int v, pos + 4)"
    using step_exact [OF assms(1)] by (simp add: r_i32le_def le_nat_le32 [OF v] Let_def)
  show "drop (pos + 4) bs = rest" using step_exact [OF assms(1)] by simp
qed

lemma step_fixed_str:
  assumes "drop pos bs = (name @ replicate (38 - length name) 0) @ rest"
    and "length name \<le> 38" and "0 \<notin> set name"
  shows "read_fixed_str dec bs pos 38 = Inr (dec name, pos + 38)"
    and "drop (pos + 38) bs = rest"
proof -
  have l: "length (name @ replicate (38 - length name) (0::byte)) = 38"
    using assms(2) by simp
  have tw: "takeWhile (\<lambda>b. b \<noteq> 0) (name @ replicate (38 - length name) (0::byte)) = name"
  proof -
    have "takeWhile (\<lambda>b. b \<noteq> 0) (name @ replicate (38 - length name) (0::byte)) =
        name @ takeWhile (\<lambda>b. b \<noteq> 0) (replicate (38 - length name) (0::byte))"
      by (rule takeWhile_append2) (use assms(3) in auto)
    then show ?thesis by simp
  qed
  from step_exact [OF assms(1)] show "read_fixed_str dec bs pos 38 = Inr (dec name, pos + 38)"
    unfolding l by (simp add: read_fixed_str_def tw)
  from step_exact [OF assms(1)] show "drop (pos + 38) bs = rest"
    unfolding l by simp
qed

lemma read_entry_synth:
  assumes rec: "drop pos bs = entry_record name unk bl rawc parent sz dt1 dt2 @ rest"
    and name: "length name \<le> 38" "0 \<notin> set name" "dec name \<noteq> []"
    and bounds: "unk < 2 ^ 31" "bl < 2 ^ 31" "rawc < 2 ^ 32" "parent < 2 ^ 16" "sz < 2 ^ 32"
      "dt1 < 2 ^ 32" "dt2 < 2 ^ 32"
  shows "read_entry dec bs pos =
     Inr (Some \<lparr>Filename = dec name, Unknow = int unk, BlockLen = int bl,
                Cluster = drop_bit 8 rawc, Parent = parent, Size = sz,
                DateTime1 = dos_datetime_from_u32 dt1,
                DateTime2 = dos_datetime_from_u32 dt2,
                is_dir = (sz = 0 \<and> drop_bit 8 rawc = 0)\<rparr>, pos + 64)"
proof -
  have d0: "drop pos bs = (name @ replicate (38 - length name) 0) @ le32 unk @ le32 bl @
      le32 rawc @ le16 parent @ le32 sz @ le32 dt1 @ le32 dt2 @ rest"
    by (simp add: rec entry_record_def)
  define q1 where "q1 = pos + 38"
  define q2 where "q2 = q1 + 4"
  define q3 where "q3 = q2 + 4"
  define q4 where "q4 = q3 + 4"
  define q5 where "q5 = q4 + 2"
  define q6 where "q6 = q5 + 4"
  define q7 where "q7 = q6 + 4"
  define q8 where "q8 = q7 + 4"
  note u1 = step_fixed_str(1) [OF d0 name(1,2), where dec = dec, folded q1_def]
    step_fixed_str(2) [OF d0 name(1,2), folded q1_def]
  note u2 = step_r_i32 [OF u1(2) bounds(1), folded q2_def]
  note u3 = step_r_i32 [OF u2(2) bounds(2), folded q3_def]
  note u4 = step_r_u32 [OF u3(2) bounds(3), folded q4_def]
  note u5 = step_r_u16 [OF u4(2) bounds(4), folded q5_def]
  note u6 = step_r_u32 [OF u5(2) bounds(5), folded q6_def]
  note u7 = step_r_u32 [OF u6(2) bounds(6), folded q7_def]
  have e7: "drop q7 bs = le32 dt2 @ rest" using u7(2) by simp
  note u8 = step_r_u32 [OF e7 bounds(7), folded q8_def]
  have fin: "q8 = pos + 64"
    by (simp add: q8_def q7_def q6_def q5_def q4_def q3_def q2_def q1_def)
  show ?thesis
    unfolding read_entry_def Let_def
    by (simp only: u1(1) u2(1) u3(1) u4(1) u5(1) u6(1) u7(1) u8(1) bindE_Inr prod.case
        name(3) if_False fin)
qed

text \<open>
  C7. For every entry that \<^verbatim>\<open>_read_entry\<close> decodes, \<open>is_dir\<close> holds if and
  only if the size is 0 and the start cluster is 0. Such an entry is skipped by
  \<^verbatim>\<open>extract_all\<close> and \<^verbatim>\<open>_extract_entry\<close> writes nothing for it; an entry of
  size 0 whose start cluster is not 0 is not a directory.
\<close>

theorem directory_iff_empty:
  assumes "read_entry dec bs pos = Inr (Some e, pos')"
  shows "(is_dir e \<longleftrightarrow> Size e = 0 \<and> Cluster e = 0) \<and>
         (Size e = 0 \<and> Cluster e = 0 \<longrightarrow>
            is_dir e \<and> extract_entries p (e # es) = extract_entries p es \<and>
            extract_entry p e = Inr None) \<and>
         (Size e = 0 \<and> Cluster e \<noteq> 0 \<longrightarrow> \<not> is_dir e)"
  using read_entry_is_dir [OF assms] by (auto simp: extract_entry_empty)

lemma dos_datetime_zero: "dos_datetime_from_u32 0 = (1980, 0, 0, 0, 0, 0)"
  by (simp add: dos_datetime_from_u32_def)

theorem directory_iff_empty_witness:
  "read_entry latin1 (entry_record [0x41] 0 0 0 0 0 0 0) 0 =
     Inr (Some \<lparr>Filename = [65], Unknow = 0, BlockLen = 0, Cluster = 0, Parent = 0, Size = 0,
                DateTime1 = (1980, 0, 0, 0, 0, 0), DateTime2 = (1980, 0, 0, 0, 0, 0),
                is_dir = True\<rparr>, 64) \<and>
   extract_entries small_pkg
     [\<lparr>Filename = [65], Unknow = 0, BlockLen = 0, Cluster = 0, Parent = 0, Size = 0,
       DateTime1 = (1980, 0, 0, 0, 0, 0), DateTime2 = (1980, 0, 0, 0, 0, 0),
       is_dir = True\<rparr>] = Inr [] \<and>
   read_entry latin1 (entry_record [0x41] 0 0 256 0 0 0 0) 0 =
     Inr (Some \<lparr>Filename = [65], Unknow = 0, BlockLen = 0, Cluster = 1, Parent = 0, Size = 0,
                DateTime1 = (1980, 0, 0, 0, 0, 0), DateTime2 = (1980, 0, 0, 0, 0, 0),
                is_dir = False\<rparr>, 64)"
proof -
  define d where "d = \<lparr>Filename = [65], Unknow = 0, BlockLen = 0, Cluster = 0, Parent = 0,
     Size = 0, DateTime1 = (1980, 0, 0, 0, 0, 0), DateTime2 = (1980, 0, 0, 0, 0, 0),
     is_dir = True\<rparr>"
  define f where "f = \<lparr>Filename = [65], Unknow = 0, BlockLen = 0, Cluster = 1, Parent = 0,
     Size = 0, DateTime1 = (1980, 0, 0, 0, 0, 0), DateTime2 = (1980, 0, 0, 0, 0, 0),
     is_dir = False\<rparr>"
  have rd: "read_entry latin1 (entry_record [0x41] 0 0 0 0 0 0 0) 0 = Inr (Some d, 64)"
    using read_entry_synth [of 0 "entry_record [0x41] 0 0 0 0 0 0 0" "[0x41]" 0 0 0 0 0 0 0 "[]" latin1]
    by (simp add: d_def latin1_def dos_datetime_zero)
  have rf: "read_entry latin1 (entry_record [0x41] 0 0 256 0 0 0 0) 0 = Inr (Some f, 64)"
    using read_entry_synth [of 0 "entry_record [0x41] 0 0 256 0 0 0 0" "[0x41]" 0 0 256 0 0 0 0 "[]" latin1]
    by (simp add: f_def latin1_def dos_datetime_zero drop_bit_eq_div)
  from directory_iff_empty [OF rd, of small_pkg "[]"]
  have "extract_entries small_pkg [d] = Inr []" by (simp add: d_def)
  moreover from directory_iff_empty [OF rf, of small_pkg "[]"]
  have "\<not> is_dir f" by (simp add: f_def)
  ultimately show ?thesis using rd rf unfolding d_def f_def by simp
qed

lemma example_entry_loop:
  "extract_loop small_pkg (int (Cluster example_entry)) (entry_full_blocks example_entry) 0 (- 1)
     (int (Size example_entry) - push_bit 12 (entry_full_blocks example_entry)) [] =
   Inr (PastEnd, 0, [])"
  by (subst extract_loop.simps)
     (simp add: small_pkg_def example_entry_def entry_full_blocks_def get_offset_def
        con_start_def con_offset_def drop_bit_eq_div)

lemma get_offset_0: "get_offset 0 = 49152"
  by (simp add: get_offset_def con_start_def)

lemma short_pkg_read: "read_exact (pkg_bytes short_pkg) 49152 1 = Inr ([7], 49153)"
  by (simp add: short_pkg_def read_exact_def f_read_def Let_def)

lemma extract_loop_guards_example:
  "extract_loop small_pkg 0 1 0 (- 1) 904 [] = Inr (PastEnd, 0, []) \<and>
   extract_loop short_pkg 0 1 0 (- 1) 904 [] = Inr (ShortBlock, 0, [7]) \<and>
   0 < Size example_entry \<and> PastEnd \<noteq> Exhausted \<and>
   extract_entry small_pkg example_entry = Inr (Some [])"
proof -
  have s: "0 < Size example_entry" by (simp add: example_entry_def)
  note t = extract_loop_guards [of 0 1 "- 1" 0 _ 904 "[]" example_entry PastEnd 0 "[]"]
  have a: "extract_loop small_pkg 0 1 0 (- 1) 904 [] = Inr (PastEnd, 0, [])"
    using t [of small_pkg] by (simp add: get_offset_0 small_pkg_def)
  have b: "extract_loop short_pkg 0 1 0 (- 1) 904 [] = Inr (ShortBlock, 0, [7])"
    using t [of short_pkg] short_pkg_read
    by (simp add: get_offset_0) (simp add: short_pkg_def)
  have c: "extract_entry small_pkg example_entry = Inr (Some [])"
    using t [of small_pkg] s example_entry_loop by simp
  from a b c s show ?thesis by simp
qed

section \<open>Properties of the pixel transform\<close>

lemma pix_less:
  assumes "y < h" "x < w" "c < 3"
  shows "pix w y x c < w * h * 3"
proof -
  have "y * w + x < (y + 1) * w" using assms(2) by simp
  also have "\<dots> \<le> h * w" using assms(1) by (intro mult_le_mono1) simp
  finally have "y * w + x + 1 \<le> h * w" by simp
  then have "(y * w + x + 1) * 3 \<le> h * w * 3" by simp
  then show ?thesis using assms(3) by (simp add: pix_def mult.commute)
qed

lemma pix_mod3 [simp]: "c < 3 \<Longrightarrow> pix w y x c mod 3 = c"
  unfolding pix_def by (simp only: mod_mult_self3 mod_less)

lemma pix_div3 [simp]: "c < 3 \<Longrightarrow> pix w y x c div 3 = y * w + x"
  unfolding pix_def by simp

lemma pix_row:
  assumes "x < w" "c < 3"
  shows "pix w y x c div (w * 3) = y" and "pix w y x c mod (w * 3) div 3 = x"
proof -
  have e: "pix w y x c = y * (w * 3) + (x * 3 + c)"
    by (simp add: pix_def algebra_simps)
  have l: "x * 3 + c < w * 3" using assms by simp
  show "pix w y x c div (w * 3) = y"
    unfolding e using l by simp
  have "pix w y x c mod (w * 3) = x * 3 + c"
    unfolding e using l by simp
  then show "pix w y x c mod (w * 3) div 3 = x" using assms(2) by simp
qed

lemma pix_decomp:
  assumes "i < w * h * 3"
  obtains y x c where "y < h" "x < w" "c < 3" "i = pix w y x c"
proof -
  have w: "0 < w" using assms by (cases w) simp_all
  define p where "p = i div 3"
  have p: "p < w * h" using assms by (simp add: p_def)
  have "p div w < h" using p w by (simp add: less_mult_imp_div_less mult.commute)
  moreover have "p mod w < w" using w by simp
  moreover have "i mod 3 < 3" by simp
  moreover have "i = pix w (p div w) (p mod w) (i mod 3)"
    by (simp add: pix_def p_def)
  ultimately show ?thesis using that by blast
qed

lemma list_eq_pix:
  assumes "length a = w * h * 3" "length b = w * h * 3"
    and "\<And>y x c. y < h \<Longrightarrow> x < w \<Longrightarrow> c < 3 \<Longrightarrow> a ! pix w y x c = b ! pix w y x c"
  shows "a = b"
proof (rule nth_equalityI)
  show "length a = length b" using assms(1,2) by simp
next
  fix i assume "i < length a"
  then have "i < w * h * 3" using assms(1) by simp
  then obtain y x c where "y < h" "x < w" "c < 3" "i = pix w y x c"
    by (rule pix_decomp)
  then show "a ! i = b ! i" using assms(3) by simp
qed

lemma reorder_loop_eq:
  assumes "length buf = 3 * n" "length out = 3 * n" "j \<le> n"
  shows "reorder_loop buf out (3 * j) =
     Inr (map (\<lambda>i. if i < 3 * j then out ! i
                    else buf ! (if i mod 3 = 0 then i + 2 else i - 1)) [0..<3 * n])"
  using assms
proof (induction "n - j" arbitrary: j out)
  case 0
  then have j: "j = n" by simp
  have "map (\<lambda>i. if i < 3 * n then out ! i
                    else buf ! (if i mod 3 = 0 then i + 2 else i - 1)) [0..<3 * n] = out"
    using "0.prems"(2) by (intro nth_equalityI) simp_all
  then show ?case
    using "0.prems"(1) by (subst reorder_loop.simps) (simp add: j)
next
  case (Suc k)
  then have j: "j < n" by simp
  define out' where
    "out' = out[3 * j := buf ! (3 * j + 2), 3 * j + 1 := buf ! (3 * j), 3 * j + 2 := buf ! (3 * j + 1)]"
  have l: "length out' = 3 * n" using Suc.prems(2) by (simp add: out'_def)
  have k: "k = n - (j + 1)" using Suc.hyps(2) by simp
  have j1: "j + 1 \<le> n" using j by simp
  have step3: "reorder_loop buf out (3 * j) = reorder_loop buf out' (3 * j + 3)"
    using j Suc.prems(1) by (subst reorder_loop.simps) (simp add: out'_def)
  have "3 * j + 3 = 3 * (j + 1)" by simp
  with step3 have step: "reorder_loop buf out (3 * j) = reorder_loop buf out' (3 * (j + 1))"
    by (simp only:)
  have m3: "(3 * j) mod 3 = 0" "(3 * j + 1) mod 3 = 1" "(3 * j + 2) mod 3 = 2"
    by presburger+
  have eq: "(if i < 3 * (j + 1) then out' ! i
             else buf ! (if i mod 3 = 0 then i + 2 else i - 1)) =
            (if i < 3 * j then out ! i
             else buf ! (if i mod 3 = 0 then i + 2 else i - 1))" if i: "i < 3 * n" for i
  proof -
    have "i < 3 * j \<or> i = 3 * j \<or> i = 3 * j + 1 \<or> i = 3 * j + 2 \<or> 3 * (j + 1) \<le> i"
      by arith
    then consider "i < 3 * j" | "i = 3 * j" | "i = 3 * j + 1" | "i = 3 * j + 2"
      | "3 * (j + 1) \<le> i"
      by blast
    then show ?thesis
    proof cases
      case 1
      then show ?thesis by (simp add: out'_def)
    next
      case 2
      then show ?thesis using i Suc.prems(2) by (simp add: out'_def)
    next
      case 3
      then show ?thesis using i Suc.prems(2) m3 by (simp add: out'_def)
    next
      case 4
      then show ?thesis using i Suc.prems(2) m3 by (simp add: out'_def)
    next
      case 5
      then show ?thesis by simp
    qed
  qed
  have "map (\<lambda>i. if i < 3 * (j + 1) then out' ! i
             else buf ! (if i mod 3 = 0 then i + 2 else i - 1)) [0..<3 * n] =
        map (\<lambda>i. if i < 3 * j then out ! i
             else buf ! (if i mod 3 = 0 then i + 2 else i - 1)) [0..<3 * n]"
  proof (rule map_cong [OF refl])
    fix i assume "i \<in> set [0..<3 * n]"
    then have "i < 3 * n" by simp
    then show "(if i < 3 * (j + 1) then out' ! i
             else buf ! (if i mod 3 = 0 then i + 2 else i - 1)) =
            (if i < 3 * j then out ! i
             else buf ! (if i mod 3 = 0 then i + 2 else i - 1))"
      by (rule eq)
  qed
  then show ?case
    unfolding step Suc.hyps(1) [OF k Suc.prems(1) l j1] by (simp only:)
qed

lemma reorder_channels_eq:
  assumes "length buf = 3 * n"
  shows "reorder_channels buf =
     Inr (map (\<lambda>i. buf ! (if i mod 3 = 0 then i + 2 else i - 1)) [0..<3 * n])"
  using reorder_loop_eq [OF assms, of "replicate (length buf) 0" 0]
  by (simp add: reorder_channels_def assms)

lemma pix_shift:
  "pix w y x 0 + 2 = pix w y x 2" "pix w y x 1 - 1 = pix w y x 0"
  "pix w y x 2 - 1 = pix w y x 1"
  by (simp_all add: pix_def)

lemma reorder_channels_pix:
  assumes "length buf = w * h * 3"
  shows "\<exists>rb. reorder_channels buf = Inr rb \<and> length rb = w * h * 3 \<and>
    (\<forall>y x. y < h \<longrightarrow> x < w \<longrightarrow>
       rb ! pix w y x 0 = buf ! pix w y x 2 \<and>
       rb ! pix w y x 1 = buf ! pix w y x 0 \<and>
       rb ! pix w y x 2 = buf ! pix w y x 1)"
proof -
  define rb where
    "rb = map (\<lambda>i. buf ! (if i mod 3 = 0 then i + 2 else i - 1)) [0..<3 * (w * h)]"
  have l: "length buf = 3 * (w * h)" using assms by simp
  have r: "reorder_channels buf = Inr rb"
    unfolding rb_def by (rule reorder_channels_eq [OF l])
  have len: "length rb = w * h * 3" by (simp add: rb_def)
  have n: "rb ! pix w y x c = buf ! (if c = 0 then pix w y x c + 2 else pix w y x c - 1)"
    if "y < h" "x < w" "c < 3" for y x c
  proof -
    have b: "pix w y x c < 3 * (w * h)" using pix_less [OF that] by (simp add: mult.commute)
    have "rb ! pix w y x c =
        buf ! (if pix w y x c mod 3 = 0 then pix w y x c + 2 else pix w y x c - 1)"
      unfolding rb_def using b by (simp only: nth_map length_upt nth_upt diff_zero add_0)
    then show ?thesis using that(3) by (simp only: pix_mod3)
  qed
  have "rb ! pix w y x 0 = buf ! pix w y x 2 \<and>
       rb ! pix w y x 1 = buf ! pix w y x 0 \<and>
       rb ! pix w y x 2 = buf ! pix w y x 1" if yx: "y < h" "x < w" for y x
  proof -
    have "rb ! pix w y x 0 = buf ! (pix w y x 0 + 2)"
      using n [OF yx, of 0] by (simp only: if_True) simp
    moreover have "rb ! pix w y x 1 = buf ! (pix w y x 1 - 1)"
      using n [OF yx, of 1] by simp
    moreover have "rb ! pix w y x 2 = buf ! (pix w y x 2 - 1)"
      using n [OF yx, of 2] by simp
    ultimately show ?thesis by (simp only: pix_shift)
  qed
  with r len show ?thesis by blast
qed

lemma row_bounds:
  fixes w h y :: nat
  assumes "y < h"
  shows "y * (w * 3) + w * 3 \<le> w * h * 3"
proof -
  have "(y + 1) * (w * 3) \<le> h * (w * 3)"
    using assms by (intro mult_le_mono1) simp
  then show ?thesis by (simp add: algebra_simps)
qed

lemma pix_as_row: "pix w y x c = y * (w * 3) + (x * 3 + c)"
  by (simp add: pix_def algebra_simps)

lemma slice3_len_row:
  assumes "y < h" "c < 3"
  shows "slice3_len (w * h * 3) (y * (w * 3) + c) (y * (w * 3) + w * 3) = w"
proof -
  have "min (y * (w * 3) + w * 3) (w * h * 3) = y * (w * 3) + w * 3"
    using row_bounds [OF assms(1), of w] by simp
  then show ?thesis
    unfolding slice3_len_def using assms(2) by simp
qed

lemma chan_row_length:
  assumes "length xs = w * h * 3" "y < h" "c < 3"
  shows "length (chan_row xs w y c) = w"
  by (simp add: chan_row_def slice3_def assms(1) slice3_len_row [OF assms(2,3)])

lemma chan_row_nth:
  assumes "length xs = w * h * 3" "y < h" "c < 3" "k < w"
  shows "chan_row xs w y c ! k = xs ! pix w y k c"
proof -
  have "y * (w * 3) + c + 3 * k = pix w y k c"
    by (simp add: pix_def algebra_simps)
  then show ?thesis
    using assms(4)
    by (simp add: chan_row_def slice3_def assms(1) slice3_len_row [OF assms(2,3)])
qed

lemma in_slice_iff:
  assumes "y < h" "y' < h" "x < w" "c < 3" "c' < 3"
  shows "(y * (w * 3) + c \<le> pix w y' x c' \<and>
          pix w y' x c' < min (y * (w * 3) + w * 3) (w * h * 3) \<and>
          (pix w y' x c' - (y * (w * 3) + c)) mod 3 = 0) \<longleftrightarrow> (y' = y \<and> c' = c)"
proof -
  define A where "A = y * (w * 3)"
  define A' where "A' = y' * (w * 3)"
  have m: "min (A + w * 3) (w * h * 3) = A + w * 3"
    using row_bounds [OF assms(1), of w] by (simp add: A_def)
  have p: "pix w y' x c' = A' + (x * 3 + c')" by (simp add: pix_as_row A'_def)
  have goal: "(A + c \<le> A' + (x * 3 + c') \<and> A' + (x * 3 + c') < A + w * 3 \<and>
          (A' + (x * 3 + c') - (A + c)) mod 3 = 0) \<longleftrightarrow> (y' = y \<and> c' = c)
     \<Longrightarrow> ?thesis"
    unfolding p A_def [symmetric] m by simp
  consider "y' < y" | "y' = y" | "y < y'" by linarith
  then show ?thesis
  proof cases
    case 1
    then have "(y' + 1) * (w * 3) \<le> y * (w * 3)" by (intro mult_le_mono1) simp
    then have "A' + w * 3 \<le> A" by (simp add: A_def A'_def)
    then show ?thesis
      using 1 assms(3,4,5) by (intro goal) auto
  next
    case 2
    then have "A' = A" by (simp add: A_def A'_def)
    then show ?thesis
      using 2 assms(3,4,5) by (intro goal) (auto, presburger+)
  next
    case 3
    then have "(y + 1) * (w * 3) \<le> y' * (w * 3)" by (intro mult_le_mono1) simp
    then have "A + w * 3 \<le> A'" by (simp add: A_def A'_def)
    then show ?thesis
      using 3 assms(3,4,5) by (intro goal) auto
  qed
qed

lemma slice_div:
  assumes "c < 3"
  shows "(pix w y x c - (y * (w * 3) + c)) div 3 = x"
  unfolding pix_as_row by simp

lemma py_rotate_nth:
  assumes "length r = w" "0 < s" "s < w" "x < w"
  shows "(drop (length r - s) r @ take (length r - s) r) ! x = r ! ((x + (w - s)) mod w)"
proof -
  have "(w - s) mod length r = w - s" using assms(1,2,3) by simp
  then have "drop (length r - s) r @ take (length r - s) r = rotate (w - s) r"
    using assms(1) by (simp add: rotate_drop_take)
  then show ?thesis
    using assms(1,4) by (simp add: nth_rotate add.commute)
qed

lemma nth_map_upt_f: "i < n \<Longrightarrow> map f [0..<n] ! i = f i"
  by simp

lemma shift_row_spec:
  assumes len: "length out = w * h * 3" and y: "y < h" and c: "c < 3"
    and s: "0 < s" "s < w"
  shows "\<exists>out'. shift_row out w c s y = Inr out' \<and> length out' = w * h * 3 \<and>
     (\<forall>y' x c'. y' < h \<longrightarrow> x < w \<longrightarrow> c' < 3 \<longrightarrow>
        out' ! pix w y' x c' =
          (if y' = y \<and> c' = c then out ! pix w y ((x + (w - s)) mod w) c
           else out ! pix w y' x c'))"
proof -
  define r where "r = chan_row out w y c"
  define rot where "rot = drop (length r - s) r @ take (length r - s) r"
  define out' where
    "out' = map (\<lambda>i. if y * (w * 3) + c \<le> i \<and> i < min (y * (w * 3) + w * 3) (length out) \<and>
                        (i - (y * (w * 3) + c)) mod 3 = 0
                     then rot ! ((i - (y * (w * 3) + c)) div 3) else out ! i)
                [0..<length out]"
  have lr: "length r = w" unfolding r_def by (rule chan_row_length [OF len y c])
  have lrot: "length rot = w" using lr by (simp add: rot_def)
  have sl: "slice3_len (length out) (y * (w * 3) + c) (y * (w * 3) + w * 3) = w"
    unfolding len by (rule slice3_len_row [OF y c])
  have run: "shift_row out w c s y = Inr out'"
    unfolding shift_row_def Let_def slice3_assign_def
    by (simp add: chan_row_def [symmetric] r_def [symmetric] rot_def [symmetric] lrot sl
        out'_def)
  have l': "length out' = w * h * 3" by (simp add: out'_def len)
  have nth: "out' ! pix w y' x c' =
          (if y' = y \<and> c' = c then out ! pix w y ((x + (w - s)) mod w) c
           else out ! pix w y' x c')"
    if a: "y' < h" "x < w" "c' < 3" for y' x c'
  proof -
    have b: "pix w y' x c' < length out" unfolding len by (rule pix_less [OF a])
    have e: "out' ! pix w y' x c' =
        (if y' = y \<and> c' = c then rot ! ((pix w y' x c' - (y * (w * 3) + c)) div 3)
         else out ! pix w y' x c')"
      unfolding out'_def len
      by (simp only: nth_map_upt_f [OF pix_less [OF a]] in_slice_iff [OF y a(1,2) c a(3)])
    show ?thesis
    proof (cases "y' = y \<and> c' = c")
      case True
      have m: "(x + (w - s)) mod w < w" using a(2) by simp
      have "rot ! x = r ! ((x + (w - s)) mod w)"
        unfolding rot_def by (rule py_rotate_nth [OF lr s a(2)])
      also have "\<dots> = out ! pix w y ((x + (w - s)) mod w) c"
        unfolding r_def by (rule chan_row_nth [OF len y c m])
      finally have "rot ! x = out ! pix w y ((x + (w - s)) mod w) c" .
      moreover have "(pix w y' x c' - (y * (w * 3) + c)) div 3 = x"
        using True slice_div [OF c, of w y x] by simp
      ultimately show ?thesis unfolding e by (simp only: True if_True simp_thms)
    next
      case False
      show ?thesis unfolding e by (simp only: False if_False)
    qed
  qed
  from run l' nth show ?thesis by blast
qed

lemma shift_rows_spec:
  assumes c: "c < 3" and s: "0 < s" "s < w"
  shows "length out = w * h * 3 \<Longrightarrow> distinct ys \<Longrightarrow> \<forall>y \<in> set ys. y < h \<Longrightarrow>
     \<exists>out'. shift_rows out w c s ys = Inr out' \<and> length out' = w * h * 3 \<and>
     (\<forall>y' x c'. y' < h \<longrightarrow> x < w \<longrightarrow> c' < 3 \<longrightarrow>
        out' ! pix w y' x c' =
          (if y' \<in> set ys \<and> c' = c then out ! pix w y' ((x + (w - s)) mod w) c
           else out ! pix w y' x c'))"
proof (induction ys arbitrary: out)
  case Nil
  then show ?case by simp
next
  case (Cons y ys)
  have y: "y < h" using Cons.prems(3) by simp
  have yn: "y \<notin> set ys" and d: "distinct ys" using Cons.prems(2) by simp_all
  have b: "\<forall>y \<in> set ys. y < h" using Cons.prems(3) by simp
  from shift_row_spec [OF Cons.prems(1) y c s]
  obtain o1 where o1: "shift_row out w c s y = Inr o1" "length o1 = w * h * 3"
    and n1: "\<And>y' x c'. y' < h \<Longrightarrow> x < w \<Longrightarrow> c' < 3 \<Longrightarrow>
        o1 ! pix w y' x c' =
          (if y' = y \<and> c' = c then out ! pix w y ((x + (w - s)) mod w) c
           else out ! pix w y' x c')"
    by blast
  from Cons.IH [OF o1(2) d b]
  obtain o2 where o2: "shift_rows o1 w c s ys = Inr o2" "length o2 = w * h * 3"
    and n2: "\<And>y' x c'. y' < h \<Longrightarrow> x < w \<Longrightarrow> c' < 3 \<Longrightarrow>
        o2 ! pix w y' x c' =
          (if y' \<in> set ys \<and> c' = c then o1 ! pix w y' ((x + (w - s)) mod w) c
           else o1 ! pix w y' x c')"
    by blast
  have run: "shift_rows out w c s (y # ys) = Inr o2"
    by (simp add: o1(1) o2(1))
  have "o2 ! pix w y' x c' =
          (if y' \<in> set (y # ys) \<and> c' = c then out ! pix w y' ((x + (w - s)) mod w) c
           else out ! pix w y' x c')"
    if a: "y' < h" "x < w" "c' < 3" for y' x c'
  proof -
    have m: "(x + (w - s)) mod w < w" using a(2) by simp
    show ?thesis
    proof (cases "y' \<in> set ys \<and> c' = c")
      case True
      then have "y' \<noteq> y" using yn by auto
      then show ?thesis
        using True n2 [OF a] n1 [OF a(1) m c] by simp
    next
      case False
      then show ?thesis
        using n2 [OF a] n1 [OF a] by auto
    qed
  qed
  with run o2(2) show ?case by blast
qed

lemma shift_channel_spec:
  assumes w: "0 < w" and len: "length buf = w * h * 3"
  shows "\<exists>out. shift_channel buf w h ch k = Inr out \<and> length out = w * h * 3 \<and>
     (\<forall>y x c. y < h \<longrightarrow> x < w \<longrightarrow> c < 3 \<longrightarrow>
        out ! pix w y x c =
          (if c = ch_idx ch then buf ! pix w y ((x + (w - nat (k mod int w))) mod w) c
           else buf ! pix w y x c))"
proof -
  define s where "s = nat (k mod int w)"
  have sw: "s < w" using w by (simp add: s_def nat_less_iff)
  have c: "ch_idx ch < 3" by (cases ch) simp_all
  show ?thesis
  proof (cases "s = 0")
    case True
    have "shift_channel buf w h ch k = Inr buf"
      using w True by (simp add: shift_channel_def s_def [symmetric])
    moreover have "buf ! pix w y ((x + (w - s)) mod w) c = buf ! pix w y x c"
      if "x < w" for y x c using that True by simp
    ultimately show ?thesis using len unfolding s_def [symmetric] by simp
  next
    case False
    then have s0: "0 < s" by simp
    have run: "shift_channel buf w h ch k = shift_rows buf w (ch_idx ch) s [0..<h]"
      using w False by (simp add: shift_channel_def s_def [symmetric])
    from shift_rows_spec [OF c s0 sw len, of "[0..<h]"]
    obtain out where o: "shift_rows buf w (ch_idx ch) s [0..<h] = Inr out"
        "length out = w * h * 3"
      and n: "\<And>y' x c'. y' < h \<Longrightarrow> x < w \<Longrightarrow> c' < 3 \<Longrightarrow>
        out ! pix w y' x c' =
          (if y' \<in> set [0..<h] \<and> c' = ch_idx ch
           then buf ! pix w y' ((x + (w - s)) mod w) (ch_idx ch)
           else buf ! pix w y' x c')"
      by auto
    have "out ! pix w y x c' =
          (if c' = ch_idx ch then buf ! pix w y ((x + (w - s)) mod w) c'
           else buf ! pix w y x c')" if "y < h" "x < w" "c' < 3" for y x c'
      using n [OF that] that(1) by simp
    with o show ?thesis unfolding run s_def [symmetric] by blast
  qed
qed

lemma neg_mod_nat:
  fixes w k :: nat
  assumes "0 < w"
  shows "nat ((- int k) mod int w) = (if k mod w = 0 then 0 else w - k mod w)"
proof -
  define m where "m = k mod w"
  have a: "int k mod int w = int m" unfolding m_def by (rule of_nat_mod [symmetric])
  have mw: "m < w" unfolding m_def using assms by simp
  have "(- int k) mod int w = (if int m = 0 then 0 else int w - int m)"
    unfolding zmod_zminus1_eq_if a ..
  then have "nat ((- int k) mod int w) = (if m = 0 then 0 else w - m)"
    using mw by (cases "m = 0") auto
  then show ?thesis unfolding m_def .
qed

lemma left_rotation_index:
  fixes w x k :: nat
  assumes "0 < w"
  shows "(x + (w - nat ((- int k) mod int w))) mod w = (x + k) mod w"
proof -
  define m where "m = k mod w"
  have mw: "m < w" unfolding m_def using assms by simp
  have e: "nat ((- int k) mod int w) = (if m = 0 then 0 else w - m)"
    unfolding m_def by (rule neg_mod_nat [OF assms])
  have "(x + (w - nat ((- int k) mod int w))) mod w = (x + m) mod w"
  proof (cases "m = 0")
    case True
    then show ?thesis unfolding e by simp
  next
    case False
    have "w - (w - m) = m" using mw by simp
    then show ?thesis unfolding e using False by simp
  qed
  also have "\<dots> = (x + k) mod w" unfolding m_def by (rule mod_add_right_eq)
  finally show ?thesis .
qed

lemma pixel_transform_spec:
  assumes w: "0 < w" and len: "length buf = w * h * 3"
  shows "\<exists>rb out. reorder_channels buf = Inr rb \<and> pixel_transform buf w h = Inr out \<and>
    length rb = w * h * 3 \<and> length out = w * h * 3 \<and>
    (\<forall>y x. y < h \<longrightarrow> x < w \<longrightarrow>
       rb ! pix w y x 0 = buf ! pix w y x 2 \<and>
       rb ! pix w y x 1 = buf ! pix w y x 0 \<and>
       rb ! pix w y x 2 = buf ! pix w y x 1) \<and>
    (\<forall>y x. y < h \<longrightarrow> x < w \<longrightarrow>
       out ! pix w y x 0 = rb ! pix w y ((x + 3) mod w) 0 \<and>
       out ! pix w y x 1 = rb ! pix w y ((x + 4) mod w) 1 \<and>
       out ! pix w y x 2 = rb ! pix w y ((x + 4) mod w) 2)"
proof -
  from reorder_channels_pix [OF len]
  obtain rb where rb: "reorder_channels buf = Inr rb" "length rb = w * h * 3"
    and nrb: "\<And>y x. y < h \<Longrightarrow> x < w \<Longrightarrow>
       rb ! pix w y x 0 = buf ! pix w y x 2 \<and>
       rb ! pix w y x 1 = buf ! pix w y x 0 \<and>
       rb ! pix w y x 2 = buf ! pix w y x 1"
    by blast
  have l3: "(x + (w - nat (- 3 mod int w))) mod w = (x + 3) mod w" for x
    using left_rotation_index [OF w, of x 3] by simp
  have l4: "(x + (w - nat (- 4 mod int w))) mod w = (x + 4) mod w" for x
    using left_rotation_index [OF w, of x 4] by simp
  from shift_channel_spec [OF w rb(2), of R "- 3"]
  obtain d1 where d1: "shift_channel rb w h R (- 3) = Inr d1" "length d1 = w * h * 3"
    and n1: "\<And>y x c. y < h \<Longrightarrow> x < w \<Longrightarrow> c < 3 \<Longrightarrow>
        d1 ! pix w y x c =
          (if c = 0 then rb ! pix w y ((x + 3) mod w) c else rb ! pix w y x c)"
    unfolding l3 by auto
  from shift_channel_spec [OF w d1(2), of G "- 4"]
  obtain d2 where d2: "shift_channel d1 w h G (- 4) = Inr d2" "length d2 = w * h * 3"
    and n2: "\<And>y x c. y < h \<Longrightarrow> x < w \<Longrightarrow> c < 3 \<Longrightarrow>
        d2 ! pix w y x c =
          (if c = 1 then d1 ! pix w y ((x + 4) mod w) c else d1 ! pix w y x c)"
    unfolding l4 by auto
  from shift_channel_spec [OF w d2(2), of B "- 4"]
  obtain out where out: "shift_channel d2 w h B (- 4) = Inr out" "length out = w * h * 3"
    and n3: "\<And>y x c. y < h \<Longrightarrow> x < w \<Longrightarrow> c < 3 \<Longrightarrow>
        out ! pix w y x c =
          (if c = 2 then d2 ! pix w y ((x + 4) mod w) c else d2 ! pix w y x c)"
    unfolding l4 by auto
  have run: "pixel_transform buf w h = Inr out"
    by (simp add: pixel_transform_def rb(1) d1(1) d2(1) out(1))
  have "out ! pix w y x 0 = rb ! pix w y ((x + 3) mod w) 0 \<and>
       out ! pix w y x 1 = rb ! pix w y ((x + 4) mod w) 1 \<and>
       out ! pix w y x 2 = rb ! pix w y ((x + 4) mod w) 2" if yx: "y < h" "x < w" for y x
  proof -
    have m: "(x + 4) mod w < w" using w by simp
    have "out ! pix w y x 0 = rb ! pix w y ((x + 3) mod w) 0"
      using n3 [OF yx, of 0] n2 [OF yx, of 0] n1 [OF yx, of 0] by simp
    moreover have "out ! pix w y x 1 = rb ! pix w y ((x + 4) mod w) 1"
      using n3 [OF yx, of 1] n2 [OF yx, of 1] n1 [OF yx(1) m, of 1] by simp
    moreover have "out ! pix w y x 2 = rb ! pix w y ((x + 4) mod w) 2"
      using n3 [OF yx, of 2] n2 [OF yx(1) m, of 2] n1 [OF yx(1) m, of 2] by simp
    ultimately show ?thesis by blast
  qed
  with rb run out(2) nrb show ?thesis by blast
qed

lemma upt6: "[0..<6] = [0, 1, 2, 3, 4, 5::nat]"
  by (simp add: upt_rec)

lemma upt3: "[0..<3] = [0, 1, 2::nat]"
  by (simp add: upt_rec)

lemma reorder_example: "reorder_channels [1, 2, 3, 4, 5, 6] = Inr [3, 1, 2, 6, 4, 5]"
  using reorder_channels_eq [of "[1, 2, 3, 4, 5, 6]" 2] by (simp add: upt6)

lemma reorder_pixel_example: "reorder_channels [1, 2, 3] = Inr [3, 1, 2]"
  using reorder_channels_eq [of "[1, 2, 3]" 1] by (simp add: upt3)

lemma shift_r_example: "shift_channel [3, 1, 2, 6, 4, 5] 2 1 R (- 3) = Inr [6, 1, 2, 3, 4, 5]"
  by (simp add: shift_channel_def shift_row_def slice3_def slice3_assign_def slice3_len_def
      Let_def upt6 upt_rec [of 0 2] upt_rec [of "Suc 0" 2] upt_rec [of 0 "Suc 0"])

lemma shift_g_example: "shift_channel [6, 1, 2, 3, 4, 5] 2 1 G (- 4) = Inr [6, 1, 2, 3, 4, 5]"
  by (simp add: shift_channel_def)

lemma shift_b_example: "shift_channel [6, 1, 2, 3, 4, 5] 2 1 B (- 4) = Inr [6, 1, 2, 3, 4, 5]"
  by (simp add: shift_channel_def)

lemma pixel_transform_example:
  "pixel_transform [1, 2, 3, 4, 5, 6] 2 1 = Inr [6, 1, 2, 3, 4, 5]"
  by (simp only: pixel_transform_def reorder_example shift_r_example shift_g_example
      shift_b_example bindE_Inr)

text \<open>
  C4 (as amended). On a buffer of \<open>width * height * 3\<close> bytes with \<open>width \<ge> 1\<close> the
  pixel transform succeeds and is (1) the per-pixel reorder
  \<open>output[0] = input[2]\<close>, \<open>output[1] = input[0]\<close>, \<open>output[2] = input[1]\<close>, which
  takes the stored order (G, B, R) to (R, G, B), followed by (2) in every scanline the
  left rotation by 3 of the strided sub-sequence of channel R and by 4 of those of
  channels G and B.
\<close>

theorem pixel_transform_shape:
  assumes w: "0 < w" and len: "length buf = w * h * 3"
  shows "\<exists>rb out. reorder_channels buf = Inr rb \<and> pixel_transform buf w h = Inr out \<and>
     length rb = length buf \<and> length out = length buf \<and>
     (\<forall>i < w * h. rb ! (3 * i) = buf ! (3 * i + 2) \<and> rb ! (3 * i + 1) = buf ! (3 * i) \<and>
                  rb ! (3 * i + 2) = buf ! (3 * i + 1)) \<and>
     (\<forall>y < h. chan_row out w y 0 = rotate 3 (chan_row rb w y 0) \<and>
              chan_row out w y 1 = rotate 4 (chan_row rb w y 1) \<and>
              chan_row out w y 2 = rotate 4 (chan_row rb w y 2))"
proof -
  from pixel_transform_spec [OF w len]
  obtain rb out where rb: "reorder_channels buf = Inr rb"
    and run: "pixel_transform buf w h = Inr out"
    and lrb: "length rb = w * h * 3" and lout: "length out = w * h * 3"
    and nrb: "\<And>y x. y < h \<Longrightarrow> x < w \<Longrightarrow>
       rb ! pix w y x 0 = buf ! pix w y x 2 \<and>
       rb ! pix w y x 1 = buf ! pix w y x 0 \<and>
       rb ! pix w y x 2 = buf ! pix w y x 1"
    and nout: "\<And>y x. y < h \<Longrightarrow> x < w \<Longrightarrow>
       out ! pix w y x 0 = rb ! pix w y ((x + 3) mod w) 0 \<and>
       out ! pix w y x 1 = rb ! pix w y ((x + 4) mod w) 1 \<and>
       out ! pix w y x 2 = rb ! pix w y ((x + 4) mod w) 2"
    by blast
  have perm: "rb ! (3 * i) = buf ! (3 * i + 2) \<and> rb ! (3 * i + 1) = buf ! (3 * i) \<and>
       rb ! (3 * i + 2) = buf ! (3 * i + 1)" if i: "i < w * h" for i
  proof -
    have y: "i div w < h" using i w by (simp add: less_mult_imp_div_less mult.commute)
    have x: "i mod w < w" using w by simp
    have p: "pix w (i div w) (i mod w) c = 3 * i + c" for c
      by (simp add: pix_def)
    from nrb [OF y x] show ?thesis unfolding p by simp
  qed
  have rot: "chan_row out w y c = rotate k (chan_row rb w y c)"
    if y: "y < h" and c: "c < 3"
      and n: "\<And>x. x < w \<Longrightarrow> out ! pix w y x c = rb ! pix w y ((x + k) mod w) c"
    for y c k
  proof (rule nth_equalityI)
    show "length (chan_row out w y c) = length (rotate k (chan_row rb w y c))"
      by (simp add: chan_row_length [OF lout y c] chan_row_length [OF lrb y c])
  next
    fix x assume "x < length (chan_row out w y c)"
    then have x: "x < w" by (simp add: chan_row_length [OF lout y c])
    have m: "(x + k) mod w < w" using w by simp
    have "rotate k (chan_row rb w y c) ! x = chan_row rb w y c ! ((x + k) mod w)"
      using x by (simp add: nth_rotate chan_row_length [OF lrb y c] add.commute)
    also have "\<dots> = rb ! pix w y ((x + k) mod w) c"
      by (rule chan_row_nth [OF lrb y c m])
    finally have a1: "rotate k (chan_row rb w y c) ! x = rb ! pix w y ((x + k) mod w) c" .
    have a2: "chan_row out w y c ! x = out ! pix w y x c"
      by (rule chan_row_nth [OF lout y c x])
    show "chan_row out w y c ! x = rotate k (chan_row rb w y c) ! x"
      unfolding a1 a2 by (rule n [OF x])
  qed
  have rows: "chan_row out w y 0 = rotate 3 (chan_row rb w y 0) \<and>
              chan_row out w y 1 = rotate 4 (chan_row rb w y 1) \<and>
              chan_row out w y 2 = rotate 4 (chan_row rb w y 2)" if y: "y < h" for y
    using rot [OF y, of 0 3] rot [OF y, of 1 4] rot [OF y, of 2 4] nout [OF y] by simp
  from rb run lrb lout perm rows show ?thesis unfolding len by blast
qed

theorem pixel_transform_shape_witness:
  "(0::nat) < 2 \<and> length [1, 2, 3, 4, 5, 6 :: byte] = 2 * 1 * 3 \<and>
   reorder_channels [1, 2, 3, 4, 5, 6] = Inr [3, 1, 2, 6, 4, 5] \<and>
   pixel_transform [1, 2, 3, 4, 5, 6] 2 1 = Inr [6, 1, 2, 3, 4, 5] \<and>
   chan_row [6, 1, 2, 3, 4, 5 :: byte] 2 0 0 = rotate 3 (chan_row [3, 1, 2, 6, 4, 5] 2 0 0) \<and>
   chan_row [6, 1, 2, 3, 4, 5 :: byte] 2 0 1 = rotate 4 (chan_row [3, 1, 2, 6, 4, 5] 2 0 1) \<and>
   chan_row [6, 1, 2, 3, 4, 5 :: byte] 2 0 2 = rotate 4 (chan_row [3, 1, 2, 6, 4, 5] 2 0 2)"
proof -
  have l: "length [1, 2, 3, 4, 5, 6 :: byte] = 2 * 1 * 3" by simp
  from pixel_transform_shape [of 2 "[1, 2, 3, 4, 5, 6]" 1, OF _ l]
  obtain rb out where rb: "reorder_channels [1, 2, 3, 4, 5, 6] = Inr rb"
    and out: "pixel_transform [1, 2, 3, 4, 5, 6] 2 1 = Inr out"
    and rows: "\<forall>y < 1. chan_row out 2 y 0 = rotate 3 (chan_row rb 2 y 0) \<and>
              chan_row out 2 y 1 = rotate 4 (chan_row rb 2 y 1) \<and>
              chan_row out 2 y 2 = rotate 4 (chan_row rb 2 y 2)"
    by auto
  have "rb = [3, 1, 2, 6, 4, 5]" using rb by (simp only: reorder_example sum.inject)
  moreover have "out = [6, 1, 2, 3, 4, 5]"
    using out by (simp only: pixel_transform_example sum.inject)
  ultimately show ?thesis
    using rows l reorder_example pixel_transform_example by simp
qed


text \<open>
  A pixel stored as the bytes 1, 2, 3: the code puts them out as 3, 1, 2, while a stored
  order (B, R, G) put out as (R, G, B) would give 2, 3, 1.
\<close>

theorem stored_order_labels_counterexample:
  "reorder_channels [1, 2, 3] = Inr [3, 1, 2] \<and> reorder_by_labels [1, 2, 3] = [2, 3, 1] \<and>
   reorder_channels [1, 2, 3] \<noteq> Inr (reorder_by_labels [1, 2, 3])"
  by (simp add: reorder_pixel_example)


lemma rot_inverse:
  fixes w x k :: nat
  assumes "x < w"
  shows "((x + (w - k mod w)) mod w + k) mod w = x"
proof -
  have kw: "k mod w < w" using assms by simp
  have "((x + (w - k mod w)) mod w + k) mod w = (x + (w - k mod w) + k) mod w"
    by (rule mod_add_left_eq)
  also have "x + (w - k mod w) + k = x + (w + w * (k div w))"
  proof -
    have "k = k mod w + w * (k div w)" by simp
    then have "(w - k mod w) + k = w + w * (k div w)" using kw by linarith
    then show ?thesis by simp
  qed
  also have "(x + (w + w * (k div w))) mod w = x mod w"
  proof -
    have "w + w * (k div w) = w * (1 + k div w)" by (simp add: algebra_simps)
    then show ?thesis by (simp only: mod_mult_self2)
  qed
  finally show ?thesis using assms by simp
qed

lemma unshift_channel_length [simp]: "length (unshift_channel b w h c k) = length b"
  by (simp add: unshift_channel_def)

lemma unshift_channel_nth:
  assumes len: "length b = w * h * 3" and a: "y < h" "x < w" "c' < 3" and c: "c < 3"
  shows "unshift_channel b w h c k ! pix w y x c' =
     (if c' = c then b ! pix w y ((x + (w - k mod w)) mod w) c else b ! pix w y x c')"
proof -
  have lt: "pix w y x c' < w * h * 3" by (rule pix_less [OF a])
  have e: "unshift_channel b w h c k ! pix w y x c' =
     (if c' = c \<and> pix w y x c' < w * h * 3
      then rotate_right k (chan_row b w y c) ! x else b ! pix w y x c')"
    unfolding unshift_channel_def len
    by (simp only: nth_map_upt_f [OF lt] pix_mod3 [OF a(3)] pix_row [OF a(2,3)])
  have lr: "length (chan_row b w y c) = w" by (rule chan_row_length [OF len a(1) c])
  have m: "(x + (w - k mod w)) mod w < w" using a(2) by simp
  have "rotate_right k (chan_row b w y c) ! x = chan_row b w y c ! ((x + (w - k mod w)) mod w)"
    unfolding rotate_right_def using a(2) lr by (simp add: nth_rotate add.commute)
  also have "\<dots> = b ! pix w y ((x + (w - k mod w)) mod w) c"
    by (rule chan_row_nth [OF len a(1) c m])
  finally show ?thesis unfolding e using lt by simp
qed

lemma unreorder_channels_nth:
  assumes len: "length b = w * h * 3" and a: "y < h" "x < w"
  shows "unreorder_channels b ! pix w y x 0 = b ! pix w y x 1"
    and "unreorder_channels b ! pix w y x 1 = b ! pix w y x 2"
    and "unreorder_channels b ! pix w y x 2 = b ! pix w y x 0"
proof -
  have n: "unreorder_channels b ! pix w y x c =
      b ! (if c = 2 then pix w y x c - 2 else pix w y x c + 1)" if c: "c < 3" for c
  proof -
    have lt: "pix w y x c < w * h * 3" by (rule pix_less [OF a c])
    show ?thesis
      unfolding unreorder_channels_def len
      by (simp only: nth_map_upt_f [OF lt] pix_mod3 [OF c])
  qed
  have s: "pix w y x 0 + 1 = pix w y x 1" "pix w y x 1 + 1 = pix w y x 2"
    "pix w y x 2 - 2 = pix w y x 0"
    by (simp_all add: pix_def)
  show "unreorder_channels b ! pix w y x 0 = b ! pix w y x 1"
    using n [of 0] s(1) by simp
  show "unreorder_channels b ! pix w y x 1 = b ! pix w y x 2"
    using n [of 1] s(2) by simp
  show "unreorder_channels b ! pix w y x 2 = b ! pix w y x 0"
    using n [of 2] s(3) by simp
qed

text \<open>
  C5. For every buffer of \<open>width * height * 3\<close> bytes with \<open>width \<ge> 1\<close>, the pixel
  transform succeeds, and right-rotating the channels of its output in every scanline by
  the same amounts (R by 3, G and B by 4) and then applying the inverse channel
  permutation gives back the original buffer.
\<close>

theorem transform_round_trip:
  assumes w: "1 \<le> w" and len: "length buf = w * h * 3"
  shows "\<exists>out. pixel_transform buf w h = Inr out \<and> inverse_transform out w h = buf"
proof -
  have w0: "0 < w" using w by simp
  from pixel_transform_spec [OF w0 len]
  obtain rb out where run: "pixel_transform buf w h = Inr out"
    and lrb: "length rb = w * h * 3" and lout: "length out = w * h * 3"
    and nrb: "\<And>y x. y < h \<Longrightarrow> x < w \<Longrightarrow>
       rb ! pix w y x 0 = buf ! pix w y x 2 \<and>
       rb ! pix w y x 1 = buf ! pix w y x 0 \<and>
       rb ! pix w y x 2 = buf ! pix w y x 1"
    and nout: "\<And>y x. y < h \<Longrightarrow> x < w \<Longrightarrow>
       out ! pix w y x 0 = rb ! pix w y ((x + 3) mod w) 0 \<and>
       out ! pix w y x 1 = rb ! pix w y ((x + 4) mod w) 1 \<and>
       out ! pix w y x 2 = rb ! pix w y ((x + 4) mod w) 2"
    by blast
  define u3 where "u3 = unshift_channel out w h 2 4"
  define u2 where "u2 = unshift_channel u3 w h 1 4"
  define u1 where "u1 = unshift_channel u2 w h 0 3"
  have l3: "length u3 = w * h * 3" by (simp add: u3_def lout)
  have l2: "length u2 = w * h * 3" by (simp add: u2_def l3)
  have l1: "length u1 = w * h * 3" by (simp add: u1_def l2)
  have u1rb: "u1 = rb"
  proof (rule list_eq_pix [OF l1 lrb])
    fix y x c assume a: "y < h" "x < w" "c < (3::nat)"
    define x3 where "x3 = (x + (w - 3 mod w)) mod w"
    define x4 where "x4 = (x + (w - 4 mod w)) mod w"
    have x3: "x3 < w" and x4: "x4 < w" using w0 by (simp_all add: x3_def x4_def)
    have b3: "(x3 + 3) mod w = x" unfolding x3_def by (rule rot_inverse [OF a(2)])
    have b4: "(x4 + 4) mod w = x" unfolding x4_def by (rule rot_inverse [OF a(2)])
    have e1: "u1 ! pix w y x c = (if c = 0 then u2 ! pix w y x3 0 else u2 ! pix w y x c)"
      unfolding u1_def x3_def by (rule unshift_channel_nth [OF l2 a]) simp
    have e2: "u2 ! pix w y x' c' = (if c' = 1 then u3 ! pix w y ((x' + (w - 4 mod w)) mod w) 1
        else u3 ! pix w y x' c')" if "x' < w" "c' < 3" for x' c'
      unfolding u2_def by (rule unshift_channel_nth [OF l3 a(1) that]) simp
    have e3: "u3 ! pix w y x' c' = (if c' = 2 then out ! pix w y ((x' + (w - 4 mod w)) mod w) 2
        else out ! pix w y x' c')" if "x' < w" "c' < 3" for x' c'
      unfolding u3_def by (rule unshift_channel_nth [OF lout a(1) that]) simp
    consider "c = 0" | "c = 1" | "c = 2" using a(3) by linarith
    then show "u1 ! pix w y x c = rb ! pix w y x c"
    proof cases
      case 1
      have "u1 ! pix w y x 0 = out ! pix w y x3 0"
        using e1 e2 [OF x3, of 0] e3 [OF x3, of 0] 1 by simp
      also have "\<dots> = rb ! pix w y x 0" using nout [OF a(1) x3] b3 by simp
      finally show ?thesis using 1 by simp
    next
      case 2
      have "u1 ! pix w y x 1 = out ! pix w y x4 1"
        using e1 e2 [OF a(2), of 1] e3 [OF x4, of 1] 2 by (simp add: x4_def)
      also have "\<dots> = rb ! pix w y x 1" using nout [OF a(1) x4] b4 by simp
      finally show ?thesis using 2 by simp
    next
      case 3
      have "u1 ! pix w y x 2 = out ! pix w y x4 2"
        using e1 e2 [OF a(2), of 2] e3 [OF a(2), of 2] 3 by (simp add: x4_def)
      also have "\<dots> = rb ! pix w y x 2" using nout [OF a(1) x4] b4 by simp
      finally show ?thesis using 3 by simp
    qed
  qed
  have lu: "length (unreorder_channels rb) = w * h * 3"
    by (simp add: unreorder_channels_def lrb)
  have "unreorder_channels rb = buf"
  proof (rule list_eq_pix [OF lu len])
    fix y x c assume a: "y < h" "x < w" "c < (3::nat)"
    consider "c = 0" | "c = 1" | "c = 2" using a(3) by linarith
    then show "unreorder_channels rb ! pix w y x c = buf ! pix w y x c"
      using unreorder_channels_nth [OF lrb a(1,2)] nrb [OF a(1,2)]
      by cases simp_all
  qed
  then have "inverse_transform out w h = buf"
    unfolding inverse_transform_def u3_def [symmetric] u2_def [symmetric] u1_def [symmetric]
    by (simp only: u1rb)
  with run show ?thesis by blast
qed

theorem transform_round_trip_witness:
  "(1::nat) \<le> 2 \<and> length [1, 2, 3, 4, 5, 6 :: byte] = 2 * 1 * 3 \<and>
   pixel_transform [1, 2, 3, 4, 5, 6] 2 1 = Inr [6, 1, 2, 3, 4, 5] \<and>
   inverse_transform [6, 1, 2, 3, 4, 5] 2 1 = [1, 2, 3, 4, 5, 6]"
proof -
  have l: "length [1, 2, 3, 4, 5, 6 :: byte] = 2 * 1 * 3" by simp
  from transform_round_trip [of 2 "[1, 2, 3, 4, 5, 6]" 1, OF _ l]
  obtain out where out: "pixel_transform [1, 2, 3, 4, 5, 6] 2 1 = Inr out"
    and inv: "inverse_transform out 2 1 = [1, 2, 3, 4, 5, 6]"
    by auto
  have "out = [6, 1, 2, 3, 4, 5]"
    using out by (simp only: pixel_transform_example sum.inject)
  with inv l pixel_transform_example show ?thesis by simp
qed

section \<open>Properties of the image extraction\<close>

lemma read_exact_buf_Inr:
  "read_exact_buf alloc bs pos n = Inr (b, p) \<longleftrightarrow>
     n \<le> 2 ^ 63 - 1 \<and> alloc n \<and> (n = 0 \<or> pos + n \<le> length bs) \<and>
     b = take n (drop pos bs) \<and> p = pos + n"
  by (auto simp: read_exact_buf_def read_exact_Inr)

lemma extract_image_unfold:
  assumes "parse_header bs 0 = Inr (m, p)"
  shows "extract_image alloc bs =
     bindE (read_exact_buf alloc bs (screenshot_offset m) (width m * height m * 3))
       (\<lambda>(raw, pos). bindE (pixel_transform raw (width m) (height m))
          (\<lambda>data. Inr (width m, height m, data)))"
  by (simp add: extract_image_def assms Let_def)

text \<open>
  C2. Whenever the header decoder accepts an input, the screenshot offset it returns is
  4 plus the little-endian 32-bit field at bytes 11 to 14, whatever the position of the
  cursor after parsing. Whenever \<^verbatim>\<open>extract_image\<close> then hands an image on, its
  dimensions are the header's and its pixels are the transform of the
  \<open>width * height * 3\<close> bytes of the file found at that offset, which are exactly that
  many. And it does hand one on whenever the width is at least 1, the read gets its
  buffer and the file holds the bytes.
\<close>

theorem screenshot_offset_exact:
  assumes ph: "parse_header bs 0 = Inr (m, p)"
  shows "screenshot_offset m = 4 + le_nat (take 4 (drop 11 bs)) \<and>
     (extract_image alloc bs = Inr (w, h, data) \<longrightarrow>
        w = width m \<and> h = height m \<and>
        length (take (w * h * 3) (drop (screenshot_offset m) bs)) = w * h * 3 \<and>
        pixel_transform (take (w * h * 3) (drop (screenshot_offset m) bs)) w h = Inr data) \<and>
     (0 < width m \<and> width m * height m * 3 \<le> 2 ^ 63 - 1 \<and>
      alloc (width m * height m * 3) \<and>
      screenshot_offset m + width m * height m * 3 \<le> length bs \<longrightarrow>
        (\<exists>data'. extract_image alloc bs = Inr (width m, height m, data') \<and>
                 length data' = width m * height m * 3))"
proof (intro conjI impI)
  show "screenshot_offset m = 4 + le_nat (take 4 (drop 11 bs))"
    by (rule parse_header_Inr(2) [OF ph])
next
  assume a: "extract_image alloc bs = Inr (w, h, data)"
  define n where "n = width m * height m * 3"
  define raw where "raw = take n (drop (screenshot_offset m) bs)"
  from a obtain r q where rd: "read_exact_buf alloc bs (screenshot_offset m) n = Inr (r, q)"
    and pt: "bindE (pixel_transform r (width m) (height m))
               (\<lambda>data. Inr (width m, height m, data)) = Inr (w, h, data)"
    unfolding extract_image_unfold [OF ph] n_def by (auto simp: bindE_eq_Inr)
  from rd have r: "r = raw" and fits: "n = 0 \<or> screenshot_offset m + n \<le> length bs"
    by (simp_all add: read_exact_buf_Inr raw_def)
  from pt have wh: "w = width m" "h = height m"
    and tr: "pixel_transform r (width m) (height m) = Inr data"
    by (auto simp: bindE_eq_Inr)
  have lr: "length raw = n" using fits by (auto simp: raw_def)
  show "w = width m" and "h = height m" by (rule wh)+
  show "length (take (w * h * 3) (drop (screenshot_offset m) bs)) = w * h * 3"
    using lr unfolding raw_def n_def wh .
  show "pixel_transform (take (w * h * 3) (drop (screenshot_offset m) bs)) w h = Inr data"
    using tr unfolding r raw_def n_def wh .
next
  assume b: "0 < width m \<and> width m * height m * 3 \<le> 2 ^ 63 - 1 \<and>
      alloc (width m * height m * 3) \<and>
      screenshot_offset m + width m * height m * 3 \<le> length bs"
  define n where "n = width m * height m * 3"
  define raw where "raw = take n (drop (screenshot_offset m) bs)"
  have lr: "length raw = width m * height m * 3" using b by (auto simp: raw_def n_def)
  have rd: "read_exact_buf alloc bs (screenshot_offset m) (width m * height m * 3) =
      Inr (raw, screenshot_offset m + n)"
    using b by (simp add: read_exact_buf_Inr raw_def n_def)
  from b have w: "0 < width m" by simp
  from pixel_transform_spec [OF w lr]
  obtain out where out: "pixel_transform raw (width m) (height m) = Inr out"
    and lo: "length out = width m * height m * 3"
    by blast
  have "extract_image alloc bs = Inr (width m, height m, out)"
    unfolding extract_image_unfold [OF ph] rd by (simp add: out)
  with lo show "\<exists>data'. extract_image alloc bs = Inr (width m, height m, data') \<and>
                 length data' = width m * height m * 3"
    by blast
qed

theorem screenshot_offset_exact_witness:
  "parse_header (flat_header 51 0 2 (header_fields 1 7 [] [] 3 [] []) @ [1, 2, 3, 4, 5, 6]) 0 =
     Inr (\<lparr>width = 2, height = 1, save_index = 7, pc_name = [], pc_karma = [], pc_level = 3,
           pc_location = [], playtime = [], unknown1 = 0, screenshot_offset = 55,
           header_end_pos = 55, header_start_pos = 0\<rparr>, 55) \<and>
   (55::nat) = 4 + le_nat (take 4 (drop 11
       (flat_header 51 0 2 (header_fields 1 7 [] [] 3 [] []) @ [1, 2, 3, 4, 5, 6]))) \<and>
   take (2 * 1 * 3) (drop 55
       (flat_header 51 0 2 (header_fields 1 7 [] [] 3 [] []) @ [1, 2, 3, 4, 5, 6])) =
     [1, 2, 3, 4, 5, 6] \<and>
   extract_image (\<lambda>n. n \<le> 4096)
       (flat_header 51 0 2 (header_fields 1 7 [] [] 3 [] []) @ [1, 2, 3, 4, 5, 6]) =
     Inr (2, 1, [6, 1, 2, 3, 4, 5])"
proof -
  define bs :: "byte list" where
    "bs = flat_header 51 0 2 (header_fields 1 7 [] [] 3 [] []) @ [1, 2, 3, 4, 5, 6]"
  define m where "m = \<lparr>width = 2, height = 1, save_index = 7, pc_name = [], pc_karma = [],
           pc_level = 3, pc_location = [], playtime = [], unknown1 = 0, screenshot_offset = 55,
           header_end_pos = 55, header_start_pos = 0\<rparr>"
  have ph: "parse_header bs 0 = Inr (m, 55)"
    using parse_header_flat [of 2 51 0 1 7 3 "[]" "[]" "[]" "[]" "[1, 2, 3, 4, 5, 6]"]
    by (simp add: bs_def m_def latin1_def)
  have len: "length bs = 61"
    by (simp add: bs_def flat_header_def length_MAGIC length_header_fields)
  have d: "drop 55 bs = [1, 2, 3, 4, 5, 6]"
    by (simp add: bs_def flat_header_def length_MAGIC length_header_fields)
  note t = screenshot_offset_exact [OF ph, of "\<lambda>n. n \<le> 4096"]
  from t have off: "(55::nat) = 4 + le_nat (take 4 (drop 11 bs))" by (simp add: m_def)
  from t [of 2 1 "[6, 1, 2, 3, 4, 5]"]
  obtain data' where e: "extract_image (\<lambda>n. n \<le> 4096) bs = Inr (2, 1, data')"
    by (auto simp: m_def len)
  from t [of 2 1 data'] e
  have "pixel_transform (take (2 * 1 * 3) (drop 55 bs)) 2 1 = Inr data'"
    by (simp add: m_def)
  moreover have d6: "take (2 * 1 * 3) (drop 55 bs) = [1, 2, 3, 4, 5, 6]"
    by (simp add: d)
  ultimately have "data' = [6, 1, 2, 3, 4, 5]"
    unfolding d6 pixel_transform_example by simp
  with e ph off d6 show ?thesis unfolding bs_def m_def by simp
qed

lemma read_exact_buf_short:
  assumes "0 < n" "n \<le> 2 ^ 63 - 1" "alloc n" "length bs < pos + n"
  shows "read_exact_buf alloc bs pos n = Inl EOFError"
proof -
  have "read_exact bs pos n = Inl EOFError"
    by (rule read_exact_short) (use assms(1,4) in simp_all)
  then show ?thesis using assms(2,3) by (simp add: read_exact_buf_def)
qed

text \<open>
  C8 (as amended). For every accepted flat-save input that declares at least one byte of
  pixel data, in a count that \<^verbatim>\<open>f.read\<close> can serve (at most \<open>2\<^sup>6\<^sup>3 - 1\<close> and
  allocated by the platform), and that ends before
  \<open>screenshot_offset + width * height * 3\<close>, extraction fails with \<open>EOFError\<close>, so
  no image is produced.
\<close>

theorem truncated_pixels_fail:
  assumes "parse_header bs 0 = Inr (m, p)"
    and "0 < width m * height m * 3"
    and "width m * height m * 3 \<le> 2 ^ 63 - 1"
    and "alloc (width m * height m * 3)"
    and "length bs < screenshot_offset m + width m * height m * 3"
  shows "extract_image alloc bs = Inl EOFError"
proof -
  have "read_exact_buf alloc bs (screenshot_offset m) (width m * height m * 3) = Inl EOFError"
    by (rule read_exact_buf_short [where alloc = alloc]) (use assms(2,3,4,5) in simp_all)
  then show ?thesis unfolding extract_image_unfold [OF assms(1)] by simp
qed

theorem truncated_pixels_fail_witness:
  "parse_header (flat_header 51 0 2 (header_fields 1 7 [] [] 3 [] []) @ [10, 20, 30, 40, 50]) 0 =
     Inr (\<lparr>width = 2, height = 1, save_index = 7, pc_name = [], pc_karma = [], pc_level = 3,
           pc_location = [], playtime = [], unknown1 = 0, screenshot_offset = 55,
           header_end_pos = 55, header_start_pos = 0\<rparr>, 55) \<and>
   (0::nat) < 2 * 1 * 3 \<and> (2::nat) * 1 * 3 \<le> 2 ^ 63 - 1 \<and> (2::nat) * 1 * 3 \<le> 4096 \<and>
   length (flat_header 51 0 2 (header_fields 1 7 [] [] 3 [] []) @ [10, 20, 30, 40, 50])
     < 55 + 2 * 1 * 3 \<and>
   extract_image (\<lambda>n. n \<le> 4096)
     (flat_header 51 0 2 (header_fields 1 7 [] [] 3 [] []) @ [10, 20, 30, 40, 50])
     = Inl EOFError"
proof -
  define bs :: "byte list" where
    "bs = flat_header 51 0 2 (header_fields 1 7 [] [] 3 [] []) @ [10, 20, 30, 40, 50]"
  define m where "m = \<lparr>width = 2, height = 1, save_index = 7, pc_name = [], pc_karma = [],
           pc_level = 3, pc_location = [], playtime = [], unknown1 = 0, screenshot_offset = 55,
           header_end_pos = 55, header_start_pos = 0\<rparr>"
  have ph: "parse_header bs 0 = Inr (m, 55)"
    using parse_header_flat [of 2 51 0 1 7 3 "[]" "[]" "[]" "[]" "[10, 20, 30, 40, 50]"]
    by (simp add: bs_def m_def latin1_def)
  have len: "length bs = 60"
    by (simp add: bs_def flat_header_def length_MAGIC length_header_fields)
  have "extract_image (\<lambda>n. n \<le> 4096) bs = Inl EOFError"
    by (rule truncated_pixels_fail [OF ph]) (simp_all add: m_def len)
  with ph len show ?thesis unfolding bs_def m_def by simp
qed

text \<open>
  Two truncated inputs that do not end in \<open>EOFError\<close>. A header declaring a 1 by 0
  image whose screenshot offset lies beyond the end of the file: reading 0 bytes
  succeeds and the empty buffer reaches the image library. And a file of 130 bytes whose
  legacy header declares width and height \<open>2\<^sup>3\<^sup>2 - 1\<close>: the count is above
  \<open>2\<^sup>6\<^sup>3 - 1\<close> and the read raises \<open>OverflowError\<close>.
\<close>

theorem truncation_without_eof_counterexample:
  "parse_header (flat_header 1000 0 1 (header_fields 0 7 [] [] 3 [] [])) 0 =
     Inr (\<lparr>width = 1, height = 0, save_index = 7, pc_name = [], pc_karma = [], pc_level = 3,
           pc_location = [], playtime = [], unknown1 = 0, screenshot_offset = 1004,
           header_end_pos = 55, header_start_pos = 0\<rparr>, 55) \<and>
   length (flat_header 1000 0 1 (header_fields 0 7 [] [] 3 [] [])) < 1004 + 1 * 0 * 3 \<and>
   extract_image (\<lambda>n. n \<le> 4096) (flat_header 1000 0 1 (header_fields 0 7 [] [] 3 [] []))
     = Inr (1, 0, []) \<and>
   parse_header (legacy_header 116 0 70000 (replicate 60 0) 4294967295
                   (header_fields 4294967295 7 [] [] 3 [] []) @ replicate 10 0) 0 =
     Inr (\<lparr>width = 4294967295, height = 4294967295, save_index = 7, pc_name = [],
           pc_karma = [], pc_level = 3, pc_location = [], playtime = [], unknown1 = 0,
           screenshot_offset = 120, header_end_pos = 120, header_start_pos = 0\<rparr>, 120) \<and>
   length (legacy_header 116 0 70000 (replicate 60 0) 4294967295
             (header_fields 4294967295 7 [] [] 3 [] []) @ replicate 10 0)
     < 120 + 4294967295 * 4294967295 * 3 \<and>
   extract_image (\<lambda>n. n \<le> 4096)
     (legacy_header 116 0 70000 (replicate 60 0) 4294967295
        (header_fields 4294967295 7 [] [] 3 [] []) @ replicate 10 0)
     = Inl OverflowError"
proof -
  define bs :: "byte list" where "bs = flat_header 1000 0 1 (header_fields 0 7 [] [] 3 [] [])"
  define m where "m = \<lparr>width = 1, height = 0, save_index = 7, pc_name = [], pc_karma = [],
           pc_level = 3, pc_location = [], playtime = [], unknown1 = 0, screenshot_offset = 1004,
           header_end_pos = 55, header_start_pos = 0\<rparr>"
  have ph: "parse_header bs 0 = Inr (m, 55)"
    using parse_header_flat [of 1 1000 0 0 7 3 "[]" "[]" "[]" "[]" "[]"]
    by (simp add: bs_def m_def latin1_def)
  have len: "length bs = 55"
    by (simp add: bs_def flat_header_def length_MAGIC length_header_fields)
  have rd: "read_exact_buf (\<lambda>n. n \<le> 4096) bs 1004 0 = Inr ([], 1004)"
    by (simp add: read_exact_buf_Inr)
  have e1: "extract_image (\<lambda>n. n \<le> 4096) bs = Inr (1, 0, [])"
    unfolding extract_image_unfold [OF ph]
    by (simp add: m_def rd pixel_transform_def reorder_channels_Nil shift_channel_def)
  define cs :: "byte list" where
    "cs = legacy_header 116 0 70000 (replicate 60 0) 4294967295
            (header_fields 4294967295 7 [] [] 3 [] []) @ replicate 10 0"
  define k where "k = \<lparr>width = 4294967295, height = 4294967295, save_index = 7, pc_name = [],
           pc_karma = [], pc_level = 3, pc_location = [], playtime = [], unknown1 = 0,
           screenshot_offset = 120, header_end_pos = 120, header_start_pos = 0\<rparr>"
  have pk: "parse_header cs 0 = Inr (k, 120)"
    using parse_header_legacy [of 70000 "replicate 60 0" 116 0 4294967295 4294967295 7 3
        "[]" "[]" "[]" "[]" "replicate 10 0"]
    by (simp add: cs_def k_def latin1_def)
  have lc: "length cs = 130"
    by (simp add: cs_def legacy_header_def length_MAGIC length_header_fields)
  have e2: "extract_image (\<lambda>n. n \<le> 4096) cs = Inl OverflowError"
    unfolding extract_image_unfold [OF pk]
    by (simp add: k_def read_exact_buf_def)
  from ph len e1 pk lc e2 show ?thesis unfolding bs_def m_def cs_def k_def by simp
qed

end
